theory Spec2Isabelle
  imports Main "HOL-Library.Word"
begin

unbundle bit_operations_syntax

section \<open>canChat backend: data model\<close>

text \<open>
  The backend is the Motoko actor \<open>canChatBackend\<close>. \<open>Text\<close> is modelled as
  \<open>string\<close>, the unbounded \<open>Nat\<close> and \<open>Int\<close> as \<open>nat\<close> and \<open>int\<close>, \<open>Nat8\<close>
  as \<open>8 word\<close> where it holds data and as a \<open>nat\<close> with the overflow trap written out
  where the actor does arithmetic on it. A \<open>Principal\<close> is an opaque value.
\<close>

type_synonym RoomCode = string
type_synonym SessionId = string
type_synonym Principal = string

record User =
  sessionId :: SessionId
  principal :: Principal
  displayName :: string
  joinedAt :: int

record Message =
  id_msg :: nat
  sender :: SessionId
  senderName :: string
  content :: string
  timestamp :: int

record Room =
  code :: RoomCode
  creator :: SessionId
  participants :: "User list"
  messages :: "Message list"
  createdAt :: int
  lastActivity :: int

text \<open>The variants \<open>#Ok\<close> and \<open>#Err\<close> shared by the three result types.\<close>

datatype 'a Result = Ok 'a | Err string

type_synonym CreateRoomResult = "(RoomCode \<times> Room \<times> SessionId) Result"
type_synonym JoinRoomResult = "(Room \<times> SessionId) Result"
type_synonym SendMessageResult = "Message Result"

text \<open>
  A call that is suspended at an \<open>await\<close>, with the local variables it still needs when
  it is resumed: \<open>createRoom\<close> waiting for its session id, for its first room code, or
  for the code of a retry (with \<open>attempts\<close> as it stands before the increment), and
  \<open>joinRoom\<close> waiting for its session id while it holds the \<open>room\<close> it read before the
  \<open>await\<close>.
\<close>

datatype Pending =
    CreateAwaitsSessionId Principal
  | CreateAwaitsRoomCode SessionId User
  | CreateAwaitsRetry SessionId User nat
  | JoinAwaitsSessionId Principal RoomCode Room

text \<open>
  The actor's mutable variables, and the calls that are suspended. The two hash maps are
  partial functions: no operation modelled here depends on their iteration order.
\<close>

record State =
  rooms :: "RoomCode \<rightharpoonup> Room"
  sessions :: "SessionId \<rightharpoonup> User"
  messageIdCounter :: nat
  userCounter :: nat
  pending :: "Pending list"

definition init :: State where
  "init = \<lparr>rooms = Map.empty, sessions = Map.empty, messageIdCounter = 0, userCounter = 0,
            pending = []\<rparr>"

definition SESSION_TIMEOUT :: int where
  "SESSION_TIMEOUT = 20 * 60 * 1000000000"

definition alphabet :: string where
  "alphabet = ''ABCDEFGHIJKLMNOPQRSTUVWXYZ0123456789''"

text \<open>A trap aborts the running call: a failed \<open>assert\<close> or a checked overflow.\<close>

datatype trap = AssertionFailed | ArithmeticOverflow

section \<open>Code generation\<close>

text \<open>
  Modelled from the spec: the bounded entropy source \<open>Random.Finite\<close> of the Motoko base
  library, which is not under src/. It walks over the bytes of a blob; \<open>range p\<close> draws a
  \<open>p\<close>-bit unsigned value from the next bytes, most significant byte first, and is
  \<open>null\<close> once the bytes run out. The object is mutable, so the remaining bytes are
  returned with the value.
\<close>

type_synonym Finite = "8 word list"

fun Finite_range_loop :: "nat \<Rightarrow> nat \<Rightarrow> Finite \<Rightarrow> (nat \<times> Finite) option" where
  "Finite_range_loop pp acc [] = (if pp = 0 then Some (acc, []) else None)"
| "Finite_range_loop pp acc (i # it) =
     (if 8 \<le> pp then Finite_range_loop (pp - 8) (acc * 256 + unat i) it
      else if pp = 0 then Some (acc, it)
      else Some (acc * 2 ^ pp + unat (i AND drop_bit (8 - pp) (255 :: 8 word)), it))"

definition Finite_range :: "Finite \<Rightarrow> nat \<Rightarrow> (nat \<times> Finite) option" where
  "Finite_range f p = Finite_range_loop p 0 f"

text \<open>
  The loop of \<open>sampleIndex\<close> that counts the bits of \<open>n - 1\<close>. Its counter \<open>p\<close> is a
  \<open>Nat8\<close>, whose \<open>+=\<close> traps instead of wrapping when the result exceeds 255.
\<close>

function bitWidthLoop :: "nat \<Rightarrow> nat \<Rightarrow> trap + nat" where
  "bitWidthLoop p m =
     (if m > 0 then
        (if p + 1 > 255 then Inl ArithmeticOverflow else bitWidthLoop (p + 1) (m div 2))
      else Inr p)"
  by pat_completeness auto
termination
  by (relation "measure (\<lambda>(p, m). m)") auto

declare bitWidthLoop.simps [simp del]

definition bitWidth :: "nat \<Rightarrow> trap + nat" where
  "bitWidth n = bitWidthLoop 0 (n - 1)"

lemma Finite_range_loop_shorter:
  "Finite_range_loop pp acc f = Some (k, f') \<Longrightarrow> length f' \<le> length f"
  by (induction pp acc f rule: Finite_range_loop.induct) (auto split: if_splits)

lemma Finite_range_loop_consumes:
  "Finite_range_loop pp acc f = Some (k, f') \<Longrightarrow> 0 < pp \<Longrightarrow> length f' < length f"
proof (induction pp acc f rule: Finite_range_loop.induct)
  case (1 pp acc)
  then show ?case by simp
next
  case (2 pp acc i it)
  show ?case
  proof (cases "8 \<le> pp")
    case True
    with 2 have "Finite_range_loop (pp - 8) (acc * 256 + unat i) it = Some (k, f')"
      by simp
    then have "length f' \<le> length it" by (rule Finite_range_loop_shorter)
    then show ?thesis by simp
  next
    case False
    with 2 show ?thesis by (auto split: if_splits)
  qed
qed

lemma Finite_range_zero: "Finite_range f 0 = Some (k, f') \<Longrightarrow> k = 0"
  by (cases f) (auto simp: Finite_range_def)

lemma Finite_range_consumes:
  "Finite_range f p = Some (k, f') \<Longrightarrow> 0 < k \<Longrightarrow> length f' < length f"
proof -
  assume r: "Finite_range f p = Some (k, f')" and k: "0 < k"
  have "0 < p"
  proof (rule ccontr)
    assume "\<not> 0 < p"
    with r have "k = 0" using Finite_range_zero by simp
    with k show False by simp
  qed
  with r show ?thesis
    unfolding Finite_range_def by (rule Finite_range_loop_consumes)
qed

text \<open>
  \<open>sampleIndex\<close>: rejection sampling in \<open>[0, n)\<close>. The result is a trap, or the optional
  index together with what is left of the entropy.
\<close>

function sampleIndex :: "Finite \<Rightarrow> nat \<Rightarrow> trap + (nat option \<times> Finite)" where
  "sampleIndex f n =
     (if \<not> n > 0 then Inl AssertionFailed
      else case bitWidth n of
        Inl e \<Rightarrow> Inl e
      | Inr p \<Rightarrow>
          (case Finite_range f p of
             Some (k, f') \<Rightarrow> if k < n then Inr (Some k, f') else sampleIndex f' n
           | None \<Rightarrow> Inr (None, [])))"
  by pat_completeness auto
termination
proof (relation "measure (\<lambda>(f, n). length f)")
  show "wf (measure (\<lambda>(f, n). length f))" by simp
next
  fix f :: Finite and n :: nat and p x2 k f'
  assume "\<not> \<not> 0 < n" "Finite_range f p = Some x2" "(k, f') = x2" "\<not> k < n"
  then have "Finite_range f p = Some (k, f')" "0 < k" by auto
  then have "length f' < length f" by (rule Finite_range_consumes)
  then show "((f', n), (f, n)) \<in> measure (\<lambda>(f, n). length f)" by simp
qed

declare sampleIndex.simps [simp del]

text \<open>\<open>charAt\<close>: the loop over the characters, then the \<open>assert false\<close>.\<close>

fun charAtLoop :: "nat \<Rightarrow> nat \<Rightarrow> string \<Rightarrow> trap + char" where
  "charAtLoop i idx [] = Inl AssertionFailed"
| "charAtLoop i idx (c # cs) = (if i = idx then Inr c else charAtLoop (i + 1) idx cs)"

definition charAt :: "string \<Rightarrow> nat \<Rightarrow> trap + char" where
  "charAt t idx = charAtLoop 0 idx t"

text \<open>
  \<open>generateRoomCode\<close> and \<open>generateSessionId\<close> run the same loop, up to 6 and up to 12
  characters. Each \<open>await Random.blob()\<close> takes the next blob of a supply that the
  environment delivers; with a finite supply the loop may still be waiting for entropy
  when the supply is used up, which is the result \<open>None\<close>.
\<close>

function generateLoop ::
  "nat \<Rightarrow> Finite \<Rightarrow> Finite list \<Rightarrow> string \<Rightarrow> nat \<Rightarrow> trap + (string \<times> Finite list) option" where
  "generateLoop len f blobs out i =
     (if i < len then
        (case sampleIndex f (size alphabet) of
           Inl e \<Rightarrow> Inl e
         | Inr (Some j, f') \<Rightarrow>
             (case charAt alphabet j of
                Inl e \<Rightarrow> Inl e
              | Inr c \<Rightarrow> generateLoop len f' blobs (out @ [c]) (i + 1))
         | Inr (None, f') \<Rightarrow>
             (case blobs of
                [] \<Rightarrow> Inr None
              | b # bs \<Rightarrow> generateLoop len b bs out i))
      else Inr (Some (out, blobs)))"
  by pat_completeness auto
termination
  by (relation "measures [\<lambda>(len, f, blobs, out, i). length blobs,
                          \<lambda>(len, f, blobs, out, i). len - i]") auto

declare generateLoop.simps [simp del]

definition generateRoomCode :: "Finite list \<Rightarrow> trap + (string \<times> Finite list) option" where
  "generateRoomCode blobs =
     (case blobs of [] \<Rightarrow> Inr None | b # bs \<Rightarrow> generateLoop 6 b bs [] 0)"

definition generateSessionId :: "Finite list \<Rightarrow> trap + (string \<times> Finite list) option" where
  "generateSessionId blobs =
     (case blobs of [] \<Rightarrow> Inr None | b # bs \<Rightarrow> generateLoop 12 b bs [] 0)"

section \<open>Rooms, sessions and messages\<close>

text \<open>
  \<open>Time.now()\<close> is constant within one message execution and may advance at an
  \<open>await\<close>, so every operation takes one reading per stretch of code between awaits.
  The definitions of this section describe a call taken alone, from its start to its
  return: the values that \<open>await generateSessionId()\<close> and
  \<open>await generateRoomCode()\<close> deliver are arguments of the operation that awaits them.
  The next section splits \<open>createRoom\<close> and \<open>joinRoom\<close> at their awaits, where other
  calls may run.
\<close>

definition isRoomValid :: "RoomCode \<Rightarrow> int \<Rightarrow> State \<Rightarrow> bool" where
  "isRoomValid roomCode now st =
     (case rooms st roomCode of
        Some room \<Rightarrow> now - lastActivity room \<le> SESSION_TIMEOUT
      | None \<Rightarrow> False)"

definition cleanupExpiredRooms :: "int \<Rightarrow> State \<Rightarrow> State" where
  "cleanupExpiredRooms now st =
     st\<lparr>rooms := (\<lambda>c. case rooms st c of
                       Some room \<Rightarrow>
                         if now - lastActivity room > SESSION_TIMEOUT then None else Some room
                     | None \<Rightarrow> None),
        sessions := (\<lambda>s. case sessions st s of
                       Some user \<Rightarrow>
                         if now - joinedAt user > SESSION_TIMEOUT then None else Some user
                     | None \<Rightarrow> None)\<rparr>"

text \<open>\<open>Nat.toText\<close>: the decimal digits of a natural number.\<close>

fun natToText :: "nat \<Rightarrow> string" where
  "natToText n =
     (if n < 10 then [''0123456789'' ! n]
      else natToText (n div 10) @ [''0123456789'' ! (n mod 10)])"

declare natToText.simps [simp del]

definition createOrGetUser :: "SessionId \<Rightarrow> Principal \<Rightarrow> int \<Rightarrow> State \<Rightarrow> User \<times> State" where
  "createOrGetUser sid caller now st =
     (case sessions st sid of
        Some user \<Rightarrow> (user, st)
      | None \<Rightarrow>
          (let st1 = st\<lparr>userCounter := userCounter st + 1\<rparr>;
               user = \<lparr>sessionId = sid, principal = caller,
                       displayName = ''User '' @ natToText (userCounter st1),
                       joinedAt = now\<rparr>
           in (user, st1\<lparr>sessions := (sessions st1)(sid \<mapsto> user)\<rparr>)))"

text \<open>
  The retry loop of \<open>createRoom\<close>. \<open>gen k\<close> is the code that the \<open>k\<close>-th call of
  \<open>generateRoomCode\<close> within this \<open>createRoom\<close> delivers, \<open>gen 0\<close> being the first code
  and \<open>gen k\<close> for \<open>k > 0\<close> the code of the \<open>k\<close>-th retry. The loop returns the last
  code and the number of retries made.
\<close>

function uniqueCodeLoop ::
  "(RoomCode \<rightharpoonup> Room) \<Rightarrow> (nat \<Rightarrow> RoomCode) \<Rightarrow> RoomCode \<Rightarrow> nat \<Rightarrow> RoomCode \<times> nat" where
  "uniqueCodeLoop rs gen roomCode attempts =
     (if rs roomCode \<noteq> None \<and> attempts < 10
      then uniqueCodeLoop rs gen (gen (attempts + 1)) (attempts + 1)
      else (roomCode, attempts))"
  by pat_completeness auto
termination
  by (relation "measure (\<lambda>(rs, gen, roomCode, attempts). 10 - attempts)") auto

declare uniqueCodeLoop.simps [simp del]

definition createRoom ::
  "Principal \<Rightarrow> SessionId \<Rightarrow> (nat \<Rightarrow> RoomCode) \<Rightarrow> int \<Rightarrow> int \<Rightarrow> int \<Rightarrow> State
     \<Rightarrow> CreateRoomResult \<times> State" where
  "createRoom caller sid gen t0 t1 t2 st =
     (let st1 = cleanupExpiredRooms t0 st;
          (user, st2) = createOrGetUser sid caller t1 st1;
          (roomCode, attempts) = uniqueCodeLoop (rooms st2) gen (gen 0) 0
      in if attempts \<ge> 10 then (Err ''Failed to generate unique room code'', st2)
         else
           (let now = t2;
                room = \<lparr>code = roomCode, creator = sid, participants = [user],
                        messages = [], createdAt = now, lastActivity = now\<rparr>
            in (Ok (roomCode, room, sid), st2\<lparr>rooms := (rooms st2)(roomCode \<mapsto> room)\<rparr>)))"

definition joinRoom ::
  "Principal \<Rightarrow> RoomCode \<Rightarrow> SessionId \<Rightarrow> int \<Rightarrow> int \<Rightarrow> State \<Rightarrow> JoinRoomResult \<times> State" where
  "joinRoom caller roomCode sid t0 t1 st =
     (let st1 = cleanupExpiredRooms t0 st
      in case rooms st1 roomCode of
           Some room \<Rightarrow>
             if \<not> isRoomValid roomCode t0 st1
             then (Err ''Room has expired'', st1\<lparr>rooms := (rooms st1)(roomCode := None)\<rparr>)
             else
               (let (user, st2) = createOrGetUser sid caller t1 st1
                in if find (\<lambda>u. sessionId u = sid) (participants room) \<noteq> None
                   then (Ok (room, sid), st2)
                   else
                     (let updatedRoom = room\<lparr>participants := participants room @ [user],
                                             lastActivity := t1\<rparr>
                      in (Ok (updatedRoom, sid),
                          st2\<lparr>rooms := (rooms st2)(roomCode \<mapsto> updatedRoom)\<rparr>)))
         | None \<Rightarrow> (Err ''Room not found'', st1))"

definition sendMessage ::
  "Principal \<Rightarrow> RoomCode \<Rightarrow> SessionId \<Rightarrow> string \<Rightarrow> int \<Rightarrow> State
     \<Rightarrow> SendMessageResult \<times> State" where
  "sendMessage caller roomCode sid body now st =
     (let st1 = cleanupExpiredRooms now st
      in case rooms st1 roomCode of
           Some room \<Rightarrow>
             if \<not> isRoomValid roomCode now st1
             then (Err ''Room has expired'', st1\<lparr>rooms := (rooms st1)(roomCode := None)\<rparr>)
             else
               (case find (\<lambda>u. sessionId u = sid) (participants room) of
                  Some user \<Rightarrow>
                    (let message = \<lparr>id_msg = messageIdCounter st1, sender = sid,
                                    senderName = displayName user, content = body,
                                    timestamp = now\<rparr>;
                         st2 = st1\<lparr>messageIdCounter := messageIdCounter st1 + 1\<rparr>;
                         updatedRoom = room\<lparr>messages := messages room @ [message],
                                             lastActivity := now\<rparr>
                     in (Ok message, st2\<lparr>rooms := (rooms st2)(roomCode \<mapsto> updatedRoom)\<rparr>))
                | None \<Rightarrow> (Err ''You are not a member of this room'', st1))
         | None \<Rightarrow> (Err ''Room not found'', st1))"

definition getRoom :: "RoomCode \<Rightarrow> State \<Rightarrow> Room option" where
  "getRoom roomCode st = rooms st roomCode"

definition getMessages :: "RoomCode \<Rightarrow> State \<Rightarrow> Message list" where
  "getMessages roomCode st =
     (case rooms st roomCode of Some room \<Rightarrow> messages room | None \<Rightarrow> [])"

definition endRoom :: "Principal \<Rightarrow> RoomCode \<Rightarrow> SessionId \<Rightarrow> State \<Rightarrow> bool \<times> State" where
  "endRoom caller roomCode sid st =
     (case rooms st roomCode of
        Some room \<Rightarrow>
          if creator room = sid then (True, st\<lparr>rooms := (rooms st)(roomCode := None)\<rparr>)
          else (False, st)
      | None \<Rightarrow> (False, st))"

definition leaveRoom ::
  "Principal \<Rightarrow> RoomCode \<Rightarrow> SessionId \<Rightarrow> int \<Rightarrow> State \<Rightarrow> bool \<times> State" where
  "leaveRoom caller roomCode sid now st =
     (case rooms st roomCode of
        Some room \<Rightarrow>
          (let updatedParticipants = filter (\<lambda>u. sessionId u \<noteq> sid) (participants room)
           in if size updatedParticipants = 0
              then (True, st\<lparr>rooms := (rooms st)(roomCode := None)\<rparr>)
              else
                (let updatedRoom = room\<lparr>participants := updatedParticipants,
                                        lastActivity := now\<rparr>
                 in (True, st\<lparr>rooms := (rooms st)(roomCode \<mapsto> updatedRoom)\<rparr>)))
      | None \<Rightarrow> (False, st))"

definition cleanup :: "int \<Rightarrow> State \<Rightarrow> State" where
  "cleanup now st = cleanupExpiredRooms now st"

section \<open>Suspension at an await\<close>

text \<open>
  At an \<open>await\<close> the actor commits its state and the call is suspended; other calls run
  before it is resumed. The stretches of \<open>createRoom\<close> and \<open>joinRoom\<close> between their
  awaits are the following functions. \<open>generateSessionId\<close> and \<open>generateRoomCode\<close>
  do not touch the actor's variables, so each of their calls is one suspension, resumed
  with the text it delivers.
\<close>

text \<open>\<open>createRoom\<close> up to \<open>await generateSessionId()\<close>: the sweep.\<close>

definition createRoomStart :: "int \<Rightarrow> State \<Rightarrow> State" where
  "createRoomStart t0 st = cleanupExpiredRooms t0 st"

text \<open>From the session id to the first \<open>await generateRoomCode()\<close>.\<close>

definition createRoomSession :: "Principal \<Rightarrow> SessionId \<Rightarrow> int \<Rightarrow> State \<Rightarrow> User \<times> State" where
  "createRoomSession caller sid t1 st = createOrGetUser sid caller t1 st"

text \<open>
  From a delivered room code on: the test of the \<open>while\<close> loop with the store as it is
  now. Either the loop body suspends again (\<open>Inr attempts\<close>), or the loop is left and the
  call returns (\<open>Inl\<close>).
\<close>

definition createRoomLoop ::
  "SessionId \<Rightarrow> User \<Rightarrow> RoomCode \<Rightarrow> nat \<Rightarrow> int \<Rightarrow> State
     \<Rightarrow> (CreateRoomResult + nat) \<times> State" where
  "createRoomLoop sid user roomCode attempts t st =
     (if rooms st roomCode \<noteq> None \<and> attempts < 10 then (Inr attempts, st)
      else if attempts \<ge> 10 then (Inl (Err ''Failed to generate unique room code''), st)
      else
        (let now = t;
             room = \<lparr>code = roomCode, creator = sid, participants = [user],
                     messages = [], createdAt = now, lastActivity = now\<rparr>
         in (Inl (Ok (roomCode, room, sid)), st\<lparr>rooms := (rooms st)(roomCode \<mapsto> room)\<rparr>)))"

text \<open>
  \<open>joinRoom\<close> up to \<open>await generateSessionId()\<close>: it returns an error (\<open>Inl\<close>) or is
  suspended holding the room it has read (\<open>Inr\<close>).
\<close>

definition joinRoomStart ::
  "RoomCode \<Rightarrow> int \<Rightarrow> State \<Rightarrow> (JoinRoomResult + Room) \<times> State" where
  "joinRoomStart roomCode t0 st =
     (let st1 = cleanupExpiredRooms t0 st
      in case rooms st1 roomCode of
           Some room \<Rightarrow>
             if \<not> isRoomValid roomCode t0 st1
             then (Inl (Err ''Room has expired''), st1\<lparr>rooms := (rooms st1)(roomCode := None)\<rparr>)
             else (Inr room, st1)
         | None \<Rightarrow> (Inl (Err ''Room not found''), st1))"

text \<open>
  \<open>joinRoom\<close> from the delivered session id to its return. \<open>room\<close> is the copy read
  before the \<open>await\<close>, whatever the store holds under \<open>roomCode\<close> by now.
\<close>

definition joinRoomResume ::
  "Principal \<Rightarrow> RoomCode \<Rightarrow> Room \<Rightarrow> SessionId \<Rightarrow> int \<Rightarrow> State
     \<Rightarrow> JoinRoomResult \<times> State" where
  "joinRoomResume caller roomCode room sid t1 st =
     (let (user, st2) = createOrGetUser sid caller t1 st
      in if find (\<lambda>u. sessionId u = sid) (participants room) \<noteq> None
         then (Ok (room, sid), st2)
         else
           (let updatedRoom = room\<lparr>participants := participants room @ [user],
                                   lastActivity := t1\<rparr>
            in (Ok (updatedRoom, sid),
                st2\<lparr>rooms := (rooms st2)(roomCode \<mapsto> updatedRoom)\<rparr>)))"

definition suspend :: "Pending \<Rightarrow> State \<Rightarrow> State" where
  "suspend p st = st\<lparr>pending := pending st @ [p]\<rparr>"

text \<open>A suspended call goes on with the delivered text, at the time reading \<open>t\<close>.\<close>

fun resume :: "Pending \<Rightarrow> string \<Rightarrow> int \<Rightarrow> State \<Rightarrow> State" where
  "resume (CreateAwaitsSessionId caller) delivered t st =
     (case createRoomSession caller delivered t st of
        (user, st') \<Rightarrow> suspend (CreateAwaitsRoomCode delivered user) st')"
| "resume (CreateAwaitsRoomCode sid user) delivered t st =
     (case createRoomLoop sid user delivered 0 t st of
        (Inr attempts, st') \<Rightarrow> suspend (CreateAwaitsRetry sid user attempts) st'
      | (Inl result, st') \<Rightarrow> st')"
| "resume (CreateAwaitsRetry sid user attempts) delivered t st =
     (case createRoomLoop sid user delivered (attempts + 1) t st of
        (Inr attempts', st') \<Rightarrow> suspend (CreateAwaitsRetry sid user attempts') st'
      | (Inl result, st') \<Rightarrow> st')"
| "resume (JoinAwaitsSessionId caller roomCode room) delivered t st =
     snd (joinRoomResume caller roomCode room delivered t st)"

section \<open>Histories of calls\<close>

text \<open>
  What the actor executes in one piece: the start of an update call, up to its return or
  its first \<open>await\<close>, or the resumption of the suspended call at position \<open>i\<close> with the
  text delivered to it, up to its return or its next \<open>await\<close>. Calls are resumed in any
  order, and any calls may run in between. The caller, the arguments and the time readings
  come with each event. The queries do not change the state and are left out of
  histories.
\<close>

datatype Call =
    CreateRoom Principal int
  | JoinRoom Principal RoomCode int
  | SendMessage Principal RoomCode SessionId string int
  | EndRoom Principal RoomCode SessionId
  | LeaveRoom Principal RoomCode SessionId int
  | Cleanup int
  | Resume nat string int

fun step :: "Call \<Rightarrow> State \<Rightarrow> State" where
  "step (CreateRoom caller t0) st = suspend (CreateAwaitsSessionId caller) (createRoomStart t0 st)"
| "step (JoinRoom caller roomCode t0) st =
     (case joinRoomStart roomCode t0 st of
        (Inr room, st') \<Rightarrow> suspend (JoinAwaitsSessionId caller roomCode room) st'
      | (Inl result, st') \<Rightarrow> st')"
| "step (SendMessage caller roomCode sid body now) st =
     snd (sendMessage caller roomCode sid body now st)"
| "step (EndRoom caller roomCode sid) st = snd (endRoom caller roomCode sid st)"
| "step (LeaveRoom caller roomCode sid now) st = snd (leaveRoom caller roomCode sid now st)"
| "step (Cleanup now) st = cleanup now st"
| "step (Resume i delivered t) st =
     (if i < length (pending st)
      then resume (pending st ! i) delivered t
             (st\<lparr>pending := take i (pending st) @ drop (Suc i) (pending st)\<rparr>)
      else st)"

text \<open>The message id a call hands back: that of a successful \<open>sendMessage\<close>.\<close>

fun sentId :: "Call \<Rightarrow> State \<Rightarrow> nat list" where
  "sentId (SendMessage caller roomCode sid body now) st =
     (case fst (sendMessage caller roomCode sid body now st) of
        Ok message \<Rightarrow> [id_msg message]
      | Err e \<Rightarrow> [])"
| "sentId c st = []"

fun run :: "Call list \<Rightarrow> State \<Rightarrow> State" where
  "run [] st = st"
| "run (c # cs) st = run cs (step c st)"

fun sentIds :: "Call list \<Rightarrow> State \<Rightarrow> nat list" where
  "sentIds [] st = []"
| "sentIds (c # cs) st = sentId c st @ sentIds cs (step c st)"

section \<open>Invariants and sample histories\<close>

text \<open>Every entry of the session registry is stored under its own session id.\<close>

definition sessionsKeyed :: "State \<Rightarrow> bool" where
  "sessionsKeyed st = (\<forall>s u. sessions st s = Some u \<longrightarrow> sessionId u = s)"

text \<open>No room lists a session id twice.\<close>

definition participantsDistinct :: "State \<Rightarrow> bool" where
  "participantsDistinct st =
     (\<forall>c room. rooms st c = Some room \<longrightarrow> distinct (map sessionId (participants room)))"

text \<open>Nor does a room that a suspended \<open>joinRoom\<close> holds.\<close>

definition heldDistinct :: "State \<Rightarrow> bool" where
  "heldDistinct st =
     (\<forall>caller c room. JoinAwaitsSessionId caller c room \<in> set (pending st) \<longrightarrow>
        distinct (map sessionId (participants room)))"

text \<open>
  Within each room the message ids increase with the position, and all of them are below
  the counter that allocates the next id.
\<close>

definition idsOrdered :: "State \<Rightarrow> bool" where
  "idsOrdered st =
     (\<forall>c room. rooms st c = Some room \<longrightarrow>
        sorted_wrt (<) (map id_msg (messages room)) \<and>
        (\<forall>m \<in> set (messages room). id_msg m < messageIdCounter st))"

text \<open>The same for a room that a suspended \<open>joinRoom\<close> holds.\<close>

definition heldIdsOrdered :: "State \<Rightarrow> bool" where
  "heldIdsOrdered st =
     (\<forall>caller c room. JoinAwaitsSessionId caller c room \<in> set (pending st) \<longrightarrow>
        sorted_wrt (<) (map id_msg (messages room)) \<and>
        (\<forall>m \<in> set (messages room). id_msg m < messageIdCounter st))"

text \<open>
  A sample history, each call resumed at once: a room is created, its creator sends a
  message, a second session joins and sends a message. \<open>scenarioRoom\<close> is the room this
  history leaves in the store.
\<close>

definition scenario :: "Call list" where
  "scenario =
     [CreateRoom ''pa'' 0, Resume 0 ''SESSIONAAAAA'' 0, Resume 0 ''AB12CD'' 0,
      SendMessage ''pa'' ''AB12CD'' ''SESSIONAAAAA'' ''hi'' 1,
      JoinRoom ''pb'' ''AB12CD'' 2, Resume 0 ''SESSIONBBBBB'' 2,
      SendMessage ''pb'' ''AB12CD'' ''SESSIONBBBBB'' ''hello'' 3]"

definition scenarioRoom :: Room where
  "scenarioRoom =
     \<lparr>code = ''AB12CD'', creator = ''SESSIONAAAAA'',
      participants =
        [\<lparr>sessionId = ''SESSIONAAAAA'', principal = ''pa'', displayName = ''User 1'',
          joinedAt = 0\<rparr>,
         \<lparr>sessionId = ''SESSIONBBBBB'', principal = ''pb'', displayName = ''User 2'',
          joinedAt = 2\<rparr>],
      messages =
        [\<lparr>id_msg = 0, sender = ''SESSIONAAAAA'', senderName = ''User 1'', content = ''hi'',
          timestamp = 1\<rparr>,
         \<lparr>id_msg = 1, sender = ''SESSIONBBBBB'', senderName = ''User 2'',
          content = ''hello'', timestamp = 3\<rparr>],
      createdAt = 0, lastActivity = 3\<rparr>"

text \<open>
  A history with a \<open>joinRoom\<close> suspended while the creator sends a message: the resumed
  \<open>joinRoom\<close> stores the copy of the room it read before, then the new member sends.
\<close>

definition overtaken :: "Call list" where
  "overtaken =
     [CreateRoom ''pa'' 0, Resume 0 ''SESSIONAAAAA'' 0, Resume 0 ''AB12CD'' 0,
      JoinRoom ''pb'' ''AB12CD'' 1,
      SendMessage ''pa'' ''AB12CD'' ''SESSIONAAAAA'' ''hi'' 2,
      Resume 0 ''SESSIONBBBBB'' 3,
      SendMessage ''pb'' ''AB12CD'' ''SESSIONBBBBB'' ''hello'' 4]"

text \<open>
  A history with a \<open>joinRoom\<close> suspended while the creator ends the room; \<open>revival\<close>
  resumes it.
\<close>

definition endedMeanwhile :: "Call list" where
  "endedMeanwhile =
     [CreateRoom ''pa'' 0, Resume 0 ''SESSIONAAAAA'' 0, Resume 0 ''AB12CD'' 0,
      JoinRoom ''pb'' ''AB12CD'' 1,
      EndRoom ''pa'' ''AB12CD'' ''SESSIONAAAAA'']"

definition revival :: Call where
  "revival = Resume 0 ''SESSIONBBBBB'' 3"

text \<open>
  A run of \<open>generateRoomCode\<close> results in which the first code and the first nine
  retries repeat the code of the room above and the tenth retry delivers a new code.
\<close>

definition tenthRetryFresh :: "nat \<Rightarrow> RoomCode" where
  "tenthRetryFresh k = (if k < 10 then ''AB12CD'' else ''ZZ99ZZ'')"

section \<open>Properties of code generation\<close>

subsection \<open>The bit-width loop\<close>

lemma bitWidthLoop_result:
  "bitWidthLoop p m = Inr q \<Longrightarrow> \<exists>d. q = p + d \<and> m < 2 ^ d \<and> (0 < d \<longrightarrow> 2 ^ (d - 1) \<le> m)"
proof (induction p m rule: bitWidthLoop.induct)
  case (1 p m)
  show ?case
  proof (cases "m > 0")
    case False
    with "1.prems" show ?thesis by (simp add: bitWidthLoop.simps [of p m])
  next
    case True
    with "1.prems" have le: "\<not> p + 1 > 255" and rec: "bitWidthLoop (p + 1) (m div 2) = Inr q"
      by (auto simp: bitWidthLoop.simps [of p m] split: if_splits)
    from "1.IH" [OF True le rec] obtain d where
      d: "q = p + 1 + d" "m div 2 < 2 ^ d" "0 < d \<longrightarrow> 2 ^ (d - 1) \<le> m div 2"
      by blast
    have "m < 2 ^ Suc d" using d(2) by simp
    moreover have "2 ^ (Suc d - 1) \<le> m"
    proof (cases d)
      case 0
      with True show ?thesis by simp
    next
      case (Suc d')
      with d(3) have "2 ^ d' \<le> m div 2" by simp
      then show ?thesis using Suc by simp
    qed
    ultimately show ?thesis using d(1) by (intro exI [of _ "Suc d"]) simp
  qed
qed

lemma bitWidthLoop_total:
  "m < 2 ^ d \<Longrightarrow> p + d \<le> 255 \<Longrightarrow> \<exists>q. bitWidthLoop p m = Inr q"
proof (induction d arbitrary: p m)
  case 0
  then show ?case by (subst bitWidthLoop.simps) simp
next
  case (Suc d)
  show ?case
  proof (cases "m > 0")
    case False
    then show ?thesis by (subst bitWidthLoop.simps) simp
  next
    case True
    from Suc.prems have "m div 2 < 2 ^ d" "p + 1 + d \<le> 255" by auto
    from Suc.IH [OF this] obtain q where "bitWidthLoop (p + 1) (m div 2) = Inr q" by blast
    with True Suc.prems show ?thesis by (simp add: bitWidthLoop.simps [of p m])
  qed
qed

lemma bitWidthLoop_overflow:
  "2 ^ d \<le> m \<Longrightarrow> p + d = 255 \<Longrightarrow> bitWidthLoop p m = Inl ArithmeticOverflow"
proof (induction d arbitrary: p m)
  case 0
  then show ?case by (subst bitWidthLoop.simps) simp
next
  case (Suc d)
  from Suc.prems have pos: "m > 0"
    by (metis gr0I not_less_eq_eq power_eq_0_iff zero_neq_numeral le_zero_eq)
  from Suc.prems have "2 ^ d \<le> m div 2" "p + 1 + d = 255" by auto
  from Suc.IH [OF this] have "bitWidthLoop (p + 1) (m div 2) = Inl ArithmeticOverflow" .
  with pos Suc.prems show ?case by (simp add: bitWidthLoop.simps [of p m])
qed

lemma bitWidth_minimal:
  assumes "0 < n" "n \<le> 2 ^ 255"
  shows "\<exists>p. bitWidth n = Inr p \<and> n \<le> 2 ^ p \<and> (\<forall>q. n \<le> 2 ^ q \<longrightarrow> p \<le> q)"
proof -
  from assms have "n - 1 < 2 ^ 255" by simp
  then obtain p where p: "bitWidthLoop 0 (n - 1) = Inr p"
    using bitWidthLoop_total [of "n - 1" 255 0] by auto
  from bitWidthLoop_result [OF p] have lt: "n - 1 < 2 ^ p" and ge: "0 < p \<longrightarrow> 2 ^ (p - 1) \<le> n - 1"
    by auto
  from lt assms have "n \<le> 2 ^ p" by simp
  moreover have "p \<le> q" if q: "n \<le> 2 ^ q" for q
  proof (rule ccontr)
    assume "\<not> p \<le> q"
    then have "q \<le> p - 1" "0 < p" by auto
    then have "(2::nat) ^ q \<le> 2 ^ (p - 1)" by (simp add: power_increasing)
    moreover from ge \<open>0 < p\<close> have "2 ^ (p - 1) \<le> n - 1" by simp
    ultimately have "n \<le> n - 1" using q by linarith
    with assms(1) show False by simp
  qed
  ultimately show ?thesis using p by (auto simp: bitWidth_def)
qed

lemma bitWidth_width:
  assumes "0 < n" and "bitWidth n = Inr p"
  shows "n \<le> 2 ^ p \<and> (\<forall>q. n \<le> 2 ^ q \<longrightarrow> p \<le> q)"
proof -
  from assms(2) have p: "bitWidthLoop 0 (n - 1) = Inr p" by (simp add: bitWidth_def)
  from bitWidthLoop_result [OF p] have lt: "n - 1 < 2 ^ p"
    and ge: "0 < p \<longrightarrow> 2 ^ (p - 1) \<le> n - 1"
    by auto
  from lt assms(1) have "n \<le> 2 ^ p" by simp
  moreover have "p \<le> q" if q: "n \<le> 2 ^ q" for q
  proof (rule ccontr)
    assume "\<not> p \<le> q"
    then have "q \<le> p - 1" "0 < p" by auto
    then have "(2::nat) ^ q \<le> 2 ^ (p - 1)" by (simp add: power_increasing)
    moreover from ge \<open>0 < p\<close> have "2 ^ (p - 1) \<le> n - 1" by simp
    ultimately have "n \<le> n - 1" using q by linarith
    with assms(1) show False by simp
  qed
  ultimately show ?thesis by blast
qed

lemma bitWidth_alphabet: "bitWidth (size alphabet) = Inr 6"
  by (simp add: bitWidth_def alphabet_def bitWidthLoop.simps)

subsection \<open>Sampling and character lookup\<close>

lemma sampleIndex_below:
  "sampleIndex f n = Inr (Some k, f') \<Longrightarrow> k < n"
proof (induction f n rule: sampleIndex.induct)
  case (1 f n)
  from "1.prems" have pos: "\<not> \<not> 0 < n"
    by (subst (asm) sampleIndex.simps) (simp split: if_splits)
  from "1.prems" pos obtain p where p: "bitWidth n = Inr p"
    by (subst (asm) sampleIndex.simps) (auto split: sum.splits)
  from "1.prems" pos p obtain j g where r: "Finite_range f p = Some (j, g)"
    by (subst (asm) sampleIndex.simps) (auto split: option.splits)
  show ?case
  proof (cases "j < n")
    case True
    with "1.prems" pos p r show ?thesis by (subst (asm) sampleIndex.simps) simp
  next
    case False
    with "1.prems" pos p r have "sampleIndex g n = Inr (Some k, f')"
      by (subst (asm) sampleIndex.simps) simp
    with "1.IH" [OF pos p r refl False] show ?thesis by simp
  qed
qed

lemma sampleIndex_no_trap:
  "0 < n \<Longrightarrow> bitWidth n = Inr p \<Longrightarrow> \<exists>r. sampleIndex f n = Inr r"
proof (induction f n rule: sampleIndex.induct)
  case (1 f n)
  show ?case
  proof (cases "Finite_range f p")
    case None
    with "1.prems" show ?thesis by (subst sampleIndex.simps) simp
  next
    case (Some a)
    obtain k f' where a: "a = (k, f')" by (cases a)
    show ?thesis
    proof (cases "k < n")
      case True
      with Some a "1.prems" show ?thesis by (subst sampleIndex.simps) simp
    next
      case False
      from "1.prems" have pos: "\<not> \<not> 0 < n" by simp
      from Some a have r: "Finite_range f p = Some (k, f')" by simp
      have "\<exists>r. sampleIndex f' n = Inr r"
        using "1.IH" [OF pos "1.prems"(2) r refl False] "1.prems" by simp
      with r "1.prems" False show ?thesis by (subst sampleIndex.simps) simp
    qed
  qed
qed

lemma charAtLoop_found:
  "i \<le> idx \<Longrightarrow> idx - i < length cs \<Longrightarrow> charAtLoop i idx cs = Inr (cs ! (idx - i))"
proof (induction cs arbitrary: i)
  case Nil
  then show ?case by simp
next
  case (Cons c cs)
  show ?case
  proof (cases "i = idx")
    case True
    then show ?thesis by simp
  next
    case False
    with Cons.prems have "i + 1 \<le> idx" "idx - (i + 1) < length cs" by auto
    from Cons.IH [OF this] False Cons.prems show ?thesis
      by (simp add: nth_Cons')
  qed
qed

lemma charAt_found: "idx < size t \<Longrightarrow> charAt t idx = Inr (t ! idx)"
  using charAtLoop_found [of 0 idx t] by (simp add: charAt_def)

lemma charAtLoop_missing:
  "i \<le> idx \<Longrightarrow> length cs \<le> idx - i \<Longrightarrow> charAtLoop i idx cs = Inl AssertionFailed"
  by (induction cs arbitrary: i) auto

lemma generateLoop_no_trap: "generateLoop len f blobs out i \<noteq> Inl e"
proof (induction len f blobs out i rule: generateLoop.induct)
  case (1 len f blobs out i)
  show ?case
  proof (cases "i < len")
    case False
    then show ?thesis by (subst generateLoop.simps) simp
  next
    case True
    obtain r where r: "sampleIndex f (size alphabet) = Inr r"
      using sampleIndex_no_trap [OF _ bitWidth_alphabet, of f] by (auto simp: alphabet_def)
    obtain j f' where jf: "r = (j, f')" by (cases r)
    show ?thesis
    proof (cases j)
      case None
      show ?thesis
      proof (cases blobs)
        case Nil
        with True r jf None show ?thesis by (subst generateLoop.simps) simp
      next
        case (Cons b bs)
        from "1.IH"(1) [OF True r jf [symmetric] None Cons]
        show ?thesis using True r jf None Cons by (subst generateLoop.simps) simp
      qed
    next
      case (Some k)
      with r jf have "k < size alphabet" using sampleIndex_below by simp
      then have c: "charAt alphabet k = Inr (alphabet ! k)" by (rule charAt_found)
      from "1.IH"(2) [OF True r jf [symmetric] Some c]
      show ?thesis using True r jf Some c by (subst generateLoop.simps) simp
    qed
  qed
qed

text \<open>
  Claim C7. For every \<open>n > 0\<close> the bit-width that \<open>sampleIndex\<close> computes is the minimal
  \<open>p\<close> with \<open>2^p \<ge> n\<close>, and every index it returns is strictly less than \<open>n\<close>. The
  computation goes through without a trap for every \<open>n\<close> up to \<open>2^255\<close>, and the
  generators pass \<open>n = 36\<close>, the size of the alphabet: there the width is 6, every
  computed index locates a character of the alphabet, so the \<open>assert false\<close> of \<open>charAt\<close>
  is not reached, and neither \<open>generateRoomCode\<close> nor \<open>generateSessionId\<close> traps.
\<close>

theorem sampleIndex_index_in_alphabet:
  "(0 < n \<longrightarrow>
      (\<forall>p. bitWidth n = Inr p \<longrightarrow> n \<le> 2 ^ p \<and> (\<forall>q. n \<le> 2 ^ q \<longrightarrow> p \<le> q))) \<and>
   (0 < n \<and> n \<le> 2 ^ 255 \<longrightarrow>
      (\<exists>p. bitWidth n = Inr p) \<and> (\<exists>r. sampleIndex f n = Inr r)) \<and>
   (\<forall>k f'. sampleIndex f n = Inr (Some k, f') \<longrightarrow> k < n) \<and>
   size alphabet = 36 \<and> bitWidth (size alphabet) = Inr 6 \<and>
   (\<exists>r. sampleIndex f (size alphabet) = Inr r) \<and>
   (\<forall>k f'. sampleIndex f (size alphabet) = Inr (Some k, f') \<longrightarrow>
      k < 36 \<and> charAt alphabet k = Inr (alphabet ! k) \<and> alphabet ! k \<in> set alphabet) \<and>
   generateRoomCode blobs \<noteq> Inl e \<and> generateSessionId blobs \<noteq> Inl e"
proof (intro conjI impI allI)
  fix p assume n: "0 < n" and p: "bitWidth n = Inr p"
  from bitWidth_width [OF n p] show "n \<le> 2 ^ p" by blast
  fix q assume "n \<le> 2 ^ q"
  with bitWidth_width [OF n p] show "p \<le> q" by blast
next
  assume n: "0 < n \<and> n \<le> 2 ^ 255"
  then show w: "\<exists>p. bitWidth n = Inr p"
    using bitWidth_minimal by blast
  then obtain p where "bitWidth n = Inr p" by blast
  with n show "\<exists>r. sampleIndex f n = Inr r"
    using sampleIndex_no_trap by blast
next
  fix k f' assume "sampleIndex f n = Inr (Some k, f')"
  then show "k < n" by (rule sampleIndex_below)
next
  show "size alphabet = 36" by (simp add: alphabet_def)
  show "bitWidth (size alphabet) = Inr 6" by (rule bitWidth_alphabet)
  show "\<exists>r. sampleIndex f (size alphabet) = Inr r"
    using sampleIndex_no_trap [OF _ bitWidth_alphabet, of f] by (simp add: alphabet_def)
next
  fix k f' assume "sampleIndex f (size alphabet) = Inr (Some k, f')"
  then have k: "k < size alphabet" by (rule sampleIndex_below)
  then show "k < 36" by (simp add: alphabet_def)
  from k show "charAt alphabet k = Inr (alphabet ! k)" by (rule charAt_found)
  from k show "alphabet ! k \<in> set alphabet" by (rule nth_mem)
next
  show "generateRoomCode blobs \<noteq> Inl e"
    by (cases blobs) (simp_all add: generateRoomCode_def generateLoop_no_trap)
  show "generateSessionId blobs \<noteq> Inl e"
    by (cases blobs) (simp_all add: generateSessionId_def generateLoop_no_trap)
qed

text \<open>The theorem at \<open>n = 36\<close>: the byte \<open>0xFF\<close> is rejected (63), the byte \<open>0x03\<close> gives \<open>D\<close>.\<close>

theorem sampleIndex_witness:
  "sampleIndex [0xFF, 0x03] 36 = Inr (Some 3, []) \<and> charAt alphabet 3 = Inr CHR ''D'' \<and>
   bitWidth 36 = Inr 6 \<and> (36::nat) \<le> 2 ^ 6 \<and> \<not> (36::nat) \<le> 2 ^ 5"
  using sampleIndex_index_in_alphabet [of 36 "[0xFF, 0x03]" "[]" AssertionFailed]
  by (simp add: sampleIndex.simps bitWidth_def bitWidthLoop.simps Finite_range_def alphabet_def charAt_def)

text \<open>
  Beyond what the generators pass: the counter \<open>p\<close> is a \<open>Nat8\<close>, so for \<open>n > 2^255\<close>,
  where the loop needs 256 increments, \<open>sampleIndex\<close> traps before it draws.
\<close>

lemma sampleIndex_beyond_Nat8:
  "(0::nat) < 2 ^ 255 + 1 \<and> bitWidth (2 ^ 255 + 1) = Inl ArithmeticOverflow \<and>
   sampleIndex [0x2A] (2 ^ 255 + 1) = Inl ArithmeticOverflow"
proof -
  have b: "bitWidth (2 ^ 255 + 1) = Inl ArithmeticOverflow"
    using bitWidthLoop_overflow [of 255 "2 ^ 255" 0] by (simp add: bitWidth_def)
  have "sampleIndex f n = Inl ArithmeticOverflow"
    if "0 < n" "bitWidth n = Inl ArithmeticOverflow" for f n
    using that by (subst sampleIndex.simps) simp
  from this [of "2 ^ 255 + 1" "[0x2A]"] b show ?thesis by simp
qed

section \<open>Properties of the store operations\<close>

subsection \<open>Sweep and session registry\<close>

lemma rooms_cleanup:
  "rooms (cleanupExpiredRooms now st) c =
     (case rooms st c of
        Some room \<Rightarrow> if now - lastActivity room > SESSION_TIMEOUT then None else Some room
      | None \<Rightarrow> None)"
  by (simp add: cleanupExpiredRooms_def)

lemma rooms_cleanup_Some:
  "rooms (cleanupExpiredRooms now st) c = Some room \<longleftrightarrow>
     rooms st c = Some room \<and> now - lastActivity room \<le> SESSION_TIMEOUT"
  by (auto simp: rooms_cleanup split: option.splits if_splits)

lemma sessions_cleanup_Some:
  "sessions (cleanupExpiredRooms now st) s = Some u \<Longrightarrow> sessions st s = Some u"
  by (auto simp: cleanupExpiredRooms_def split: option.splits if_splits)

lemma counter_cleanup [simp]:
  "messageIdCounter (cleanupExpiredRooms now st) = messageIdCounter st"
  by (simp add: cleanupExpiredRooms_def)

lemma isRoomValid_cleanup:
  assumes "rooms (cleanupExpiredRooms now st) c = Some room"
  shows "isRoomValid c now (cleanupExpiredRooms now st)"
proof -
  from assms have "now - lastActivity room \<le> SESSION_TIMEOUT"
    by (simp add: rooms_cleanup_Some)
  with assms show ?thesis by (simp add: isRoomValid_def)
qed

lemma rooms_createOrGetUser [simp]:
  "rooms (snd (createOrGetUser sid caller now st)) = rooms st"
  by (simp add: createOrGetUser_def Let_def split: option.splits)

lemma counter_createOrGetUser [simp]:
  "messageIdCounter (snd (createOrGetUser sid caller now st)) = messageIdCounter st"
  by (simp add: createOrGetUser_def Let_def split: option.splits)

lemma sessionId_createOrGetUser:
  assumes "sessionsKeyed st"
  shows "sessionId (fst (createOrGetUser sid caller now st)) = sid"
proof (cases "sessions st sid")
  case None
  then show ?thesis by (simp add: createOrGetUser_def Let_def)
next
  case (Some u)
  with assms have "sessionId u = sid" unfolding sessionsKeyed_def by blast
  with Some show ?thesis by (simp add: createOrGetUser_def)
qed

lemma sessionsKeyed_createOrGetUser:
  assumes "sessionsKeyed st"
  shows "sessionsKeyed (snd (createOrGetUser sid caller now st))"
proof (cases "sessions st sid")
  case None
  with assms show ?thesis
    unfolding sessionsKeyed_def by (simp add: createOrGetUser_def Let_def)
next
  case (Some u)
  with assms show ?thesis by (simp add: createOrGetUser_def)
qed

lemma sessionsKeyed_cleanup:
  "sessionsKeyed st \<Longrightarrow> sessionsKeyed (cleanupExpiredRooms now st)"
  unfolding sessionsKeyed_def by (blast dest: sessions_cleanup_Some)

lemma find_sessionId_None:
  "find (\<lambda>u. sessionId u = sid) ps = None \<longleftrightarrow> sid \<notin> sessionId ` set ps"
  by (auto simp: find_None_iff)

subsection \<open>What each operation does to the rooms\<close>

text \<open>After the sweep the expiry check of \<open>sendMessage\<close> always succeeds.\<close>

lemma sendMessage_live:
  "sendMessage caller roomCode sid body now st =
     (let st1 = cleanupExpiredRooms now st
      in case rooms st1 roomCode of
           Some room \<Rightarrow>
             (case find (\<lambda>u. sessionId u = sid) (participants room) of
                Some user \<Rightarrow>
                  (let message = \<lparr>id_msg = messageIdCounter st, sender = sid,
                                  senderName = displayName user, content = body,
                                  timestamp = now\<rparr>
                   in (Ok message,
                       st1\<lparr>messageIdCounter := messageIdCounter st + 1,
                           rooms := (rooms st1)(roomCode \<mapsto>
                             room\<lparr>messages := messages room @ [message],
                                  lastActivity := now\<rparr>)\<rparr>))
              | None \<Rightarrow> (Err ''You are not a member of this room'', st1))
         | None \<Rightarrow> (Err ''Room not found'', st1))"
proof (cases "rooms (cleanupExpiredRooms now st) roomCode")
  case None
  then show ?thesis by (simp add: sendMessage_def)
next
  case (Some room)
  then have "isRoomValid roomCode now (cleanupExpiredRooms now st)"
    by (rule isRoomValid_cleanup)
  with Some show ?thesis by (simp add: sendMessage_def Let_def split: option.splits)
qed

lemma sendMessage_rooms:
  assumes "rooms (snd (sendMessage caller roomCode sid body now st)) c = Some room'"
  shows "rooms st c = Some room' \<or>
         (\<exists>room m. rooms st c = Some room \<and> participants room' = participants room \<and>
            messages room' = messages room @ [m] \<and> id_msg m = messageIdCounter st \<and>
            fst (sendMessage caller roomCode sid body now st) = Ok m)"
proof -
  let ?st1 = "cleanupExpiredRooms now st"
  have keep: "rooms st c = Some room'" if "rooms ?st1 c = Some room'"
    using that by (simp add: rooms_cleanup_Some)
  show ?thesis
  proof (cases "rooms ?st1 roomCode")
    case None
    then have "snd (sendMessage caller roomCode sid body now st) = ?st1"
      by (simp add: sendMessage_live)
    with assms keep show ?thesis by simp
  next
    case (Some room)
    then have old: "rooms st roomCode = Some room" by (simp add: rooms_cleanup_Some)
    show ?thesis
    proof (cases "find (\<lambda>u. sessionId u = sid) (participants room)")
      case None
      with Some have "snd (sendMessage caller roomCode sid body now st) = ?st1"
        by (simp add: sendMessage_live)
      with assms keep show ?thesis by simp
    next
      case (Some user)
      define m where "m = \<lparr>id_msg = messageIdCounter st, sender = sid,
        senderName = displayName user, content = body, timestamp = now\<rparr>"
      have eq: "sendMessage caller roomCode sid body now st =
        (Ok m, ?st1\<lparr>messageIdCounter := messageIdCounter st + 1,
               rooms := (rooms ?st1)(roomCode \<mapsto>
                 room\<lparr>messages := messages room @ [m], lastActivity := now\<rparr>)\<rparr>)"
        using Some \<open>rooms ?st1 roomCode = Some room\<close>
        by (simp add: sendMessage_live Let_def m_def)
      show ?thesis
      proof (cases "c = roomCode")
        case True
        with assms eq have "room' = room\<lparr>messages := messages room @ [m], lastActivity := now\<rparr>"
          by simp
        with True old eq show ?thesis by (simp add: m_def)
      next
        case False
        with assms eq have "rooms ?st1 c = Some room'" by simp
        with keep show ?thesis by simp
      qed
    qed
  qed
qed

lemma sendMessage_sessions:
  "sessions (snd (sendMessage caller roomCode sid body now st)) s = Some u \<Longrightarrow>
     sessions st s = Some u"
  by (auto simp: sendMessage_live Let_def split: option.splits
           dest: sessions_cleanup_Some)

lemma sendMessage_counter:
  "messageIdCounter (snd (sendMessage caller roomCode sid body now st)) =
     (case fst (sendMessage caller roomCode sid body now st) of
        Ok m \<Rightarrow> messageIdCounter st + 1
      | Err e \<Rightarrow> messageIdCounter st)"
  by (simp add: sendMessage_live Let_def split: option.splits)

lemma sendMessage_id:
  "fst (sendMessage caller roomCode sid body now st) = Ok m \<Longrightarrow>
     id_msg m = messageIdCounter st"
  by (auto simp: sendMessage_live Let_def split: option.splits)

lemma leaveRoom_rooms:
  assumes "rooms (snd (leaveRoom caller roomCode sid now st)) c = Some room'"
  shows "rooms st c = Some room' \<or>
         (\<exists>room. rooms st c = Some room \<and> messages room' = messages room \<and>
            participants room' = filter (\<lambda>u. sessionId u \<noteq> sid) (participants room))"
  using assms
  by (auto simp: leaveRoom_def Let_def split: option.splits if_splits)

lemma endRoom_rooms:
  "rooms (snd (endRoom caller roomCode sid st)) c = Some room' \<Longrightarrow> rooms st c = Some room'"
  by (auto simp: endRoom_def split: option.splits if_splits)

lemma leaveRoom_counter [simp]:
  "messageIdCounter (snd (leaveRoom caller roomCode sid now st)) = messageIdCounter st"
  by (simp add: leaveRoom_def Let_def split: option.splits)

lemma endRoom_counter [simp]:
  "messageIdCounter (snd (endRoom caller roomCode sid st)) = messageIdCounter st"
  by (simp add: endRoom_def split: option.splits)

subsection \<open>The stretches between awaits\<close>

lemma pending_cleanup [simp]: "pending (cleanupExpiredRooms now st) = pending st"
  by (simp add: cleanupExpiredRooms_def)

lemma pending_createOrGetUser [simp]:
  "pending (snd (createOrGetUser sid caller now st)) = pending st"
  by (simp add: createOrGetUser_def Let_def split: option.splits)

lemma pending_sendMessage [simp]:
  "pending (snd (sendMessage caller roomCode sid body now st)) = pending st"
  by (simp add: sendMessage_live Let_def split: option.splits)

lemma pending_leaveRoom [simp]:
  "pending (snd (leaveRoom caller roomCode sid now st)) = pending st"
  by (simp add: leaveRoom_def Let_def split: option.splits)

lemma pending_endRoom [simp]:
  "pending (snd (endRoom caller roomCode sid st)) = pending st"
  by (simp add: endRoom_def split: option.splits)

lemma suspend_fields [simp]:
  "rooms (suspend p st) = rooms st" "sessions (suspend p st) = sessions st"
  "messageIdCounter (suspend p st) = messageIdCounter st"
  "pending (suspend p st) = pending st @ [p]"
  by (simp_all add: suspend_def)

lemma joinRoomStart_held:
  "joinRoomStart roomCode t0 st = (Inr room, st') \<Longrightarrow>
     st' = cleanupExpiredRooms t0 st \<and> rooms st roomCode = Some room"
  by (auto simp: joinRoomStart_def Let_def rooms_cleanup_Some split: option.splits if_splits)

lemma joinRoomStart_rooms:
  "rooms (snd (joinRoomStart roomCode t0 st)) c = Some room' \<Longrightarrow> rooms st c = Some room'"
  by (auto simp: joinRoomStart_def Let_def rooms_cleanup_Some split: option.splits if_splits)

lemma joinRoomStart_sessions:
  "sessions (snd (joinRoomStart roomCode t0 st)) s = Some u \<Longrightarrow> sessions st s = Some u"
  by (auto simp: joinRoomStart_def Let_def split: option.splits if_splits
           dest: sessions_cleanup_Some)

lemma joinRoomStart_counter [simp]:
  "messageIdCounter (snd (joinRoomStart roomCode t0 st)) = messageIdCounter st"
  by (simp add: joinRoomStart_def Let_def split: option.splits)

lemma joinRoomStart_pending [simp]:
  "pending (snd (joinRoomStart roomCode t0 st)) = pending st"
  by (simp add: joinRoomStart_def Let_def split: option.splits)

lemma joinRoomResume_rooms:
  assumes "rooms (snd (joinRoomResume caller roomCode room sid t1 st)) c = Some room'"
  shows "rooms st c = Some room' \<or>
         (messages room' = messages room \<and> sid \<notin> sessionId ` set (participants room) \<and>
          participants room' = participants room @ [fst (createOrGetUser sid caller t1 st)])"
proof -
  obtain user st2 where u: "createOrGetUser sid caller t1 st = (user, st2)"
    by (cases "createOrGetUser sid caller t1 st")
  then have r2: "rooms st2 = rooms st"
    using rooms_createOrGetUser [of sid caller t1 st] by simp
  from assms u r2 show ?thesis
    by (auto simp: joinRoomResume_def Let_def find_sessionId_None split: if_splits)
qed

lemma joinRoomResume_sessions:
  assumes k: "sessionsKeyed st"
  shows "sessionsKeyed (snd (joinRoomResume caller roomCode room sid t1 st))"
proof -
  obtain user st2 where u: "createOrGetUser sid caller t1 st = (user, st2)"
    by (cases "createOrGetUser sid caller t1 st")
  then have "sessionsKeyed st2"
    using sessionsKeyed_createOrGetUser [OF k, of sid caller t1] by simp
  with u show ?thesis
    by (auto simp: joinRoomResume_def Let_def sessionsKeyed_def)
qed

lemma joinRoomResume_counter [simp]:
  "messageIdCounter (snd (joinRoomResume caller roomCode room sid t1 st)) = messageIdCounter st"
proof -
  obtain user st2 where u: "createOrGetUser sid caller t1 st = (user, st2)"
    by (cases "createOrGetUser sid caller t1 st")
  then have "messageIdCounter st2 = messageIdCounter st"
    using counter_createOrGetUser [of sid caller t1 st] by simp
  with u show ?thesis by (simp add: joinRoomResume_def Let_def)
qed

lemma joinRoomResume_pending [simp]:
  "pending (snd (joinRoomResume caller roomCode room sid t1 st)) = pending st"
proof -
  obtain user st2 where u: "createOrGetUser sid caller t1 st = (user, st2)"
    by (cases "createOrGetUser sid caller t1 st")
  then have "pending st2 = pending st"
    using pending_createOrGetUser [of sid caller t1 st] by simp
  with u show ?thesis by (simp add: joinRoomResume_def Let_def)
qed

lemma createRoomLoop_rooms:
  "rooms (snd (createRoomLoop sid user roomCode attempts t st)) c = Some room' \<Longrightarrow>
     rooms st c = Some room' \<or> (messages room' = [] \<and> participants room' = [user])"
  by (auto simp: createRoomLoop_def Let_def split: if_splits)

lemma createRoomLoop_fields [simp]:
  "sessions (snd (createRoomLoop sid user roomCode attempts t st)) = sessions st"
  "messageIdCounter (snd (createRoomLoop sid user roomCode attempts t st)) = messageIdCounter st"
  "pending (snd (createRoomLoop sid user roomCode attempts t st)) = pending st"
  by (simp_all add: createRoomLoop_def Let_def)

lemma createOrGetUser_frame:
  assumes "createOrGetUser sid caller now st = (user, st')"
  shows "rooms st' = rooms st" "messageIdCounter st' = messageIdCounter st"
    "pending st' = pending st"
  using assms rooms_createOrGetUser [of sid caller now st]
    counter_createOrGetUser [of sid caller now st] pending_createOrGetUser [of sid caller now st]
  by simp_all

lemma createRoomLoop_frame:
  assumes "createRoomLoop sid user roomCode attempts t st = (r, st')"
  shows "sessions st' = sessions st" "messageIdCounter st' = messageIdCounter st"
    "pending st' = pending st"
  using assms createRoomLoop_fields [of sid user roomCode attempts t st] by simp_all

lemma joinRoomStart_frame:
  assumes "joinRoomStart roomCode t0 st = (r, st')"
  shows "messageIdCounter st' = messageIdCounter st" "pending st' = pending st"
  using assms joinRoomStart_counter [of roomCode t0 st] joinRoomStart_pending [of roomCode t0 st]
  by simp_all

subsection \<open>A call taken alone\<close>

text \<open>
  The operations of a call taken alone are their stretches run one after the other, and a
  call that is resumed at once, with no call in between, is the call taken alone.
\<close>

lemma joinRoom_serial:
  "joinRoom caller roomCode sid t0 t1 st =
     (case joinRoomStart roomCode t0 st of
        (Inl result, st1) \<Rightarrow> (result, st1)
      | (Inr room, st1) \<Rightarrow> joinRoomResume caller roomCode room sid t1 st1)"
  by (simp add: joinRoom_def joinRoomStart_def joinRoomResume_def Let_def split: option.splits)

lemma createRoomLoop_retry:
  "rooms st roomCode \<noteq> None \<Longrightarrow> attempts < 10 \<Longrightarrow>
     createRoomLoop sid user roomCode attempts t st = (Inr attempts, st)"
  by (simp add: createRoomLoop_def)

lemma uniqueCodeLoop_exit:
  "uniqueCodeLoop rs gen roomCode attempts = (roomCode', attempts') \<Longrightarrow>
     \<not> (rs roomCode' \<noteq> None \<and> attempts' < 10)"
proof (induction rs gen roomCode attempts rule: uniqueCodeLoop.induct)
  case (1 rs gen roomCode attempts)
  show ?case
  proof (cases "rs roomCode \<noteq> None \<and> attempts < 10")
    case True
    with "1.prems" have "uniqueCodeLoop rs gen (gen (attempts + 1)) (attempts + 1) = (roomCode', attempts')"
      by (subst (asm) uniqueCodeLoop.simps) simp
    with "1.IH" [OF True] show ?thesis by simp
  next
    case False
    with "1.prems" have "roomCode' = roomCode" "attempts' = attempts"
      by (subst (asm) uniqueCodeLoop.simps, auto)+
    with False show ?thesis by simp
  qed
qed

lemma createRoom_serial:
  assumes "createRoomSession caller sid t1 (createRoomStart t0 st) = (user, st2)"
    and "uniqueCodeLoop (rooms st2) gen (gen 0) 0 = (roomCode, attempts)"
  shows "createRoomLoop sid user roomCode attempts t2 st2 =
           (Inl (fst (createRoom caller sid gen t0 t1 t2 st)),
            snd (createRoom caller sid gen t0 t1 t2 st))"
proof -
  from uniqueCodeLoop_exit [OF assms(2)]
  have "\<not> (rooms st2 roomCode \<noteq> None \<and> attempts < 10)" .
  with assms show ?thesis
    by (auto simp: createRoom_def createRoomStart_def createRoomSession_def
        createRoomLoop_def Let_def)
qed

lemma joinRoom_resumed_at_once:
  assumes "pending st = []"
  shows "run [JoinRoom caller roomCode t0, Resume 0 sid t1] st =
           snd (joinRoom caller roomCode sid t0 t1 st)"
proof (cases "joinRoomStart roomCode t0 st")
  case (Pair r st1)
  then have p1: "pending st1 = []"
    using assms joinRoomStart_frame(2) [OF Pair] by simp
  show ?thesis
  proof (cases r)
    case (Inl result)
    with Pair p1 show ?thesis by (simp add: joinRoom_serial)
  next
    case (Inr room)
    from p1 have e: "st1\<lparr>pending := []\<rparr> = st1" by simp
    from Pair Inr p1 show ?thesis by (simp add: joinRoom_serial suspend_def e)
  qed
qed

lemma createRoom_resumed_at_once:
  assumes "pending st = []" and "rooms (cleanupExpiredRooms t0 st) roomCode = None"
  shows "run [CreateRoom caller t0, Resume 0 sid t1, Resume 0 roomCode t2] st =
           snd (createRoom caller sid (\<lambda>k. roomCode) t0 t1 t2 st)"
proof -
  let ?st1 = "cleanupExpiredRooms t0 st"
  obtain user st2 where u: "createOrGetUser sid caller t1 ?st1 = (user, st2)"
    by (cases "createOrGetUser sid caller t1 ?st1")
  from createOrGetUser_frame [OF u] assms
  have f: "rooms st2 roomCode = None" "pending st2 = []" by simp_all
  then have e: "st2\<lparr>pending := []\<rparr> = st2" by simp
  have p0: "?st1\<lparr>pending := []\<rparr> = ?st1" using assms(1) by simp
  have l: "uniqueCodeLoop (rooms st2) (\<lambda>k. roomCode) roomCode 0 = (roomCode, 0)"
    using f(1) by (subst uniqueCodeLoop.simps) simp
  have s1: "step (CreateRoom caller t0) st = suspend (CreateAwaitsSessionId caller) ?st1"
    by (simp add: createRoomStart_def)
  have c1: "(suspend (CreateAwaitsSessionId caller) ?st1)\<lparr>pending := []\<rparr> = ?st1"
    using p0 by (simp add: suspend_def)
  have s2: "step (Resume 0 sid t1) (suspend (CreateAwaitsSessionId caller) ?st1) =
      suspend (CreateAwaitsRoomCode sid user) st2"
    using assms(1) u c1 by (simp add: createRoomSession_def)
  have c2: "(suspend (CreateAwaitsRoomCode sid user) st2)\<lparr>pending := []\<rparr> = st2"
    using e by (simp add: suspend_def)
  have s3: "step (Resume 0 roomCode t2) (suspend (CreateAwaitsRoomCode sid user) st2) =
      snd (createRoomLoop sid user roomCode 0 t2 st2)"
    using f c2 by (simp add: createRoomLoop_def Let_def)
  have "snd (createRoomLoop sid user roomCode 0 t2 st2) =
      snd (createRoom caller sid (\<lambda>k. roomCode) t0 t1 t2 st)"
    using createRoom_serial [of caller sid t1 t0 st user st2 "\<lambda>k. roomCode" roomCode 0 t2] u l
    by (simp add: createRoomSession_def createRoomStart_def)
  with s1 s2 s3 show ?thesis by simp
qed

subsection \<open>Invariants along a history\<close>

lemma resume_counter [simp]:
  "messageIdCounter (resume p delivered t st) = messageIdCounter st"
  by (cases p)
     (auto simp: createRoomSession_def split: prod.splits sum.splits
           dest: createOrGetUser_frame(2) createRoomLoop_frame(2))

lemma step_counter_mono: "messageIdCounter st \<le> messageIdCounter (step c st)"
  by (cases c)
     (auto simp: sendMessage_counter cleanup_def createRoomStart_def
           split: Result.splits prod.splits sum.splits dest: joinRoomStart_frame(1))

lemma sentId_bounds:
  "i \<in> set (sentId c st) \<Longrightarrow> i = messageIdCounter st \<and> i < messageIdCounter (step c st)"
  by (cases c) (auto simp: sendMessage_counter sendMessage_id split: Result.splits)

lemma resume_sessionsKeyed:
  assumes k: "sessionsKeyed st"
  shows "sessionsKeyed (resume p delivered t st)"
proof (cases p)
  case (CreateAwaitsSessionId caller)
  then show ?thesis
    using sessionsKeyed_createOrGetUser [OF k, of delivered caller t]
    by (simp add: createRoomSession_def sessionsKeyed_def split: prod.splits)
next
  case (CreateAwaitsRoomCode sid user)
  then show ?thesis
    using k by (auto simp: sessionsKeyed_def split: prod.splits sum.splits
                     dest!: createRoomLoop_frame(1))
next
  case (CreateAwaitsRetry sid user attempts)
  then show ?thesis
    using k by (auto simp: sessionsKeyed_def split: prod.splits sum.splits
                     dest!: createRoomLoop_frame(1))
next
  case (JoinAwaitsSessionId caller roomCode room)
  then show ?thesis using k by (simp add: joinRoomResume_sessions)
qed

lemma step_sessionsKeyed:
  assumes k: "sessionsKeyed st"
  shows "sessionsKeyed (step c st)"
proof (cases c)
  case (CreateRoom caller t0)
  then show ?thesis
    using sessionsKeyed_cleanup [OF k, of t0]
    by (simp add: createRoomStart_def sessionsKeyed_def)
next
  case (JoinRoom caller roomCode t0)
  have "sessionsKeyed (snd (joinRoomStart roomCode t0 st))"
    using k unfolding sessionsKeyed_def by (blast dest: joinRoomStart_sessions)
  with JoinRoom show ?thesis
    by (auto simp: sessionsKeyed_def split: prod.splits sum.splits)
next
  case (SendMessage caller roomCode sid body now)
  then show ?thesis
    using k unfolding sessionsKeyed_def by (auto dest: sendMessage_sessions)
next
  case (EndRoom caller roomCode sid)
  then show ?thesis
    using k by (auto simp: sessionsKeyed_def endRoom_def split: option.splits)
next
  case (LeaveRoom caller roomCode sid now)
  then show ?thesis
    using k by (auto simp: sessionsKeyed_def leaveRoom_def Let_def split: option.splits)
next
  case (Cleanup now)
  then show ?thesis using k by (simp add: cleanup_def sessionsKeyed_cleanup)
next
  case (Resume i delivered t)
  have "sessionsKeyed (st\<lparr>pending := take i (pending st) @ drop (Suc i) (pending st)\<rparr>)"
    using k by (simp add: sessionsKeyed_def)
  then show ?thesis using Resume k by (simp add: resume_sessionsKeyed)
qed

text \<open>
  A suspended \<open>joinRoom\<close> holds a room it has read from the store: either it was suspended
  before this step, or this step has read the room.
\<close>

lemma resume_held:
  "JoinAwaitsSessionId caller c room \<in> set (pending (resume p delivered t st)) \<Longrightarrow>
     JoinAwaitsSessionId caller c room \<in> set (pending st)"
  by (cases p)
     (auto simp: createRoomSession_def split: prod.splits sum.splits
           dest: createOrGetUser_frame(3) createRoomLoop_frame(3))

lemma set_without_nth: "set (take i xs @ drop (Suc i) xs) \<subseteq> set xs"
  using set_take_subset [of i xs] set_drop_subset [of "Suc i" xs] by auto

lemma step_held:
  assumes "JoinAwaitsSessionId caller c room \<in> set (pending (step e st))"
  shows "JoinAwaitsSessionId caller c room \<in> set (pending st) \<or> rooms st c = Some room"
proof (cases e)
  case (CreateRoom caller' t0)
  with assms show ?thesis by (simp add: createRoomStart_def)
next
  case (JoinRoom caller' roomCode t0)
  show ?thesis
  proof (cases "joinRoomStart roomCode t0 st")
    case (Pair r st')
    show ?thesis
    proof (cases r)
      case (Inl result)
      with Pair JoinRoom assms show ?thesis
        by (auto dest: joinRoomStart_frame(2))
    next
      case (Inr held)
      with Pair have "st' = cleanupExpiredRooms t0 st" "rooms st roomCode = Some held"
        using joinRoomStart_held [of roomCode t0 st held st'] by simp_all
      with Pair Inr JoinRoom assms show ?thesis by auto
    qed
  qed
next
  case (SendMessage caller' roomCode sid body now)
  with assms show ?thesis by simp
next
  case (EndRoom caller' roomCode sid)
  with assms show ?thesis by simp
next
  case (LeaveRoom caller' roomCode sid now)
  with assms show ?thesis by simp
next
  case (Cleanup now)
  with assms show ?thesis by (simp add: cleanup_def)
next
  case (Resume i delivered t)
  show ?thesis
  proof (cases "i < length (pending st)")
    case False
    with Resume assms show ?thesis by simp
  next
    case True
    with Resume assms have "JoinAwaitsSessionId caller c room \<in>
        set (pending (st\<lparr>pending := take i (pending st) @ drop (Suc i) (pending st)\<rparr>))"
      by (auto dest: resume_held)
    then show ?thesis using set_without_nth [of i "pending st"] by auto
  qed
qed

text \<open>Where a room of the store comes from after one step.\<close>

lemma resume_rooms:
  assumes "rooms (resume p delivered t st) c = Some room'"
  shows "rooms st c = Some room' \<or>
         (\<exists>caller room u. p = JoinAwaitsSessionId caller c room \<and>
            messages room' = messages room \<and> participants room' = participants room @ [u] \<and>
            (sessionsKeyed st \<longrightarrow> sessionId u \<notin> sessionId ` set (participants room))) \<or>
         (\<exists>u. messages room' = [] \<and> participants room' = [u])"
proof (cases p)
  case (CreateAwaitsSessionId caller)
  with assms show ?thesis
    by (auto simp: createRoomSession_def split: prod.splits dest: createOrGetUser_frame(1))
next
  case (CreateAwaitsRoomCode sid user)
  with assms have "rooms (snd (createRoomLoop sid user delivered 0 t st)) c = Some room'"
    by (auto split: prod.splits sum.splits)
  from createRoomLoop_rooms [OF this] show ?thesis by auto
next
  case (CreateAwaitsRetry sid user attempts)
  with assms have
    "rooms (snd (createRoomLoop sid user delivered (attempts + 1) t st)) c = Some room'"
    by (auto split: prod.splits sum.splits)
  from createRoomLoop_rooms [OF this] show ?thesis by auto
next
  case (JoinAwaitsSessionId caller roomCode room)
  with assms have r: "rooms (snd (joinRoomResume caller roomCode room delivered t st)) c = Some room'"
    by simp
  show ?thesis
  proof (cases "c = roomCode")
    case False
    then have "rooms (snd (joinRoomResume caller roomCode room delivered t st)) c = rooms st c"
      by (auto simp: joinRoomResume_def Let_def split: prod.splits
               dest: createOrGetUser_frame(1))
    with r show ?thesis by simp
  next
    case True
    from joinRoomResume_rooms [OF r] sessionId_createOrGetUser [of st delivered caller t]
    show ?thesis using JoinAwaitsSessionId True by auto
  qed
qed

lemma step_rooms:
  assumes "rooms (step e st) c = Some room'"
  shows "rooms st c = Some room' \<or>
         (\<exists>room m. rooms st c = Some room \<and> participants room' = participants room \<and>
            messages room' = messages room @ [m] \<and> id_msg m = messageIdCounter st \<and>
            messageIdCounter (step e st) = messageIdCounter st + 1) \<or>
         (\<exists>room sid. rooms st c = Some room \<and> messages room' = messages room \<and>
            participants room' = filter (\<lambda>u. sessionId u \<noteq> sid) (participants room)) \<or>
         (\<exists>caller room u. JoinAwaitsSessionId caller c room \<in> set (pending st) \<and>
            messages room' = messages room \<and> participants room' = participants room @ [u] \<and>
            (sessionsKeyed st \<longrightarrow> sessionId u \<notin> sessionId ` set (participants room))) \<or>
         (\<exists>u. messages room' = [] \<and> participants room' = [u])"
    (is "?kept \<or> ?sent \<or> ?left \<or> ?joined \<or> ?created")
proof (cases e)
  case (CreateRoom caller t0)
  with assms have ?kept by (simp add: createRoomStart_def rooms_cleanup_Some)
  then show ?thesis ..
next
  case (JoinRoom caller roomCode t0)
  with assms have "rooms (snd (joinRoomStart roomCode t0 st)) c = Some room'"
    by (auto split: prod.splits sum.splits)
  then have ?kept by (rule joinRoomStart_rooms)
  then show ?thesis ..
next
  case (SendMessage caller roomCode sid body now)
  with assms have "rooms (snd (sendMessage caller roomCode sid body now st)) c = Some room'"
    by simp
  from sendMessage_rooms [OF this]
  show ?thesis
  proof
    assume ?kept
    then show ?thesis ..
  next
    assume "\<exists>room m. rooms st c = Some room \<and> participants room' = participants room \<and>
            messages room' = messages room @ [m] \<and> id_msg m = messageIdCounter st \<and>
            fst (sendMessage caller roomCode sid body now st) = Ok m"
    then obtain room m where a: "rooms st c = Some room" "participants room' = participants room"
        "messages room' = messages room @ [m]" "id_msg m = messageIdCounter st"
        "fst (sendMessage caller roomCode sid body now st) = Ok m"
      by blast
    from a(5) SendMessage have "messageIdCounter (step e st) = messageIdCounter st + 1"
      by (simp add: sendMessage_counter)
    with a(1-4) have ?sent by blast
    then show ?thesis by - (rule disjI2, rule disjI1)
  qed
next
  case (EndRoom caller roomCode sid)
  with assms endRoom_rooms [of caller roomCode sid st c room'] have ?kept by simp
  then show ?thesis ..
next
  case (LeaveRoom caller roomCode sid now)
  with assms have "rooms (snd (leaveRoom caller roomCode sid now st)) c = Some room'" by simp
  from leaveRoom_rooms [OF this] show ?thesis
  proof
    assume ?kept
    then show ?thesis ..
  next
    assume "\<exists>room. rooms st c = Some room \<and> messages room' = messages room \<and>
            participants room' = filter (\<lambda>u. sessionId u \<noteq> sid) (participants room)"
    then have ?left by blast
    then show ?thesis by - (rule disjI2, rule disjI2, rule disjI1)
  qed
next
  case (Cleanup now)
  with assms have ?kept by (simp add: cleanup_def rooms_cleanup_Some)
  then show ?thesis ..
next
  case (Resume i delivered t)
  show ?thesis
  proof (cases "i < length (pending st)")
    case False
    with Resume assms have ?kept by simp
    then show ?thesis ..
  next
    case True
    let ?st0 = "st\<lparr>pending := take i (pending st) @ drop (Suc i) (pending st)\<rparr>"
    have k: "sessionsKeyed ?st0 = sessionsKeyed st" by (simp add: sessionsKeyed_def)
    have r0: "rooms ?st0 = rooms st" by simp
    from True have mem: "pending st ! i \<in> set (pending st)" by simp
    from True Resume assms have "rooms (resume (pending st ! i) delivered t ?st0) c = Some room'"
      by simp
    from resume_rooms [OF this] show ?thesis
    proof (elim disjE)
      assume "rooms ?st0 c = Some room'"
      with r0 have ?kept by simp
      then show ?thesis ..
    next
      assume "\<exists>caller room u. pending st ! i = JoinAwaitsSessionId caller c room \<and>
            messages room' = messages room \<and> participants room' = participants room @ [u] \<and>
            (sessionsKeyed ?st0 \<longrightarrow> sessionId u \<notin> sessionId ` set (participants room))"
      with k mem have ?joined by metis
      then show ?thesis by - (rule disjI2, rule disjI2, rule disjI2, rule disjI1)
    next
      assume ?created
      then show ?thesis by - (rule disjI2, rule disjI2, rule disjI2, rule disjI2)
    qed
  qed
qed

lemma step_participantsDistinct:
  assumes k: "sessionsKeyed st" and d: "participantsDistinct st" and h: "heldDistinct st"
  shows "participantsDistinct (step e st)"
  unfolding participantsDistinct_def
proof (intro allI impI)
  fix c room'
  assume "rooms (step e st) c = Some room'"
  from step_rooms [OF this] d h k show "distinct (map sessionId (participants room'))"
    unfolding participantsDistinct_def heldDistinct_def
    by (elim disjE exE conjE) (auto simp: distinct_map_filter)
qed

lemma step_heldDistinct:
  assumes d: "participantsDistinct st" and h: "heldDistinct st"
  shows "heldDistinct (step e st)"
  unfolding heldDistinct_def
proof (intro allI impI)
  fix caller c room
  assume "JoinAwaitsSessionId caller c room \<in> set (pending (step e st))"
  from step_held [OF this] d h show "distinct (map sessionId (participants room))"
    unfolding participantsDistinct_def heldDistinct_def by blast
qed

lemma run_distinct:
  "sessionsKeyed st \<Longrightarrow> participantsDistinct st \<Longrightarrow> heldDistinct st \<Longrightarrow>
     sessionsKeyed (run cs st) \<and> participantsDistinct (run cs st) \<and> heldDistinct (run cs st)"
proof (induction cs arbitrary: st)
  case Nil
  then show ?case by simp
next
  case (Cons c cs)
  have "sessionsKeyed (step c st)" using Cons.prems(1) by (rule step_sessionsKeyed)
  moreover have "participantsDistinct (step c st)"
    using Cons.prems by (rule step_participantsDistinct)
  moreover have "heldDistinct (step c st)"
    using Cons.prems(2,3) by (rule step_heldDistinct)
  ultimately show ?case using Cons.IH [of "step c st"] by simp
qed

lemma init_distinct: "sessionsKeyed init \<and> participantsDistinct init \<and> heldDistinct init"
  by (simp add: sessionsKeyed_def participantsDistinct_def heldDistinct_def init_def)

lemma step_idsOrdered:
  assumes d: "idsOrdered st" and h: "heldIdsOrdered st"
  shows "idsOrdered (step e st)"
  unfolding idsOrdered_def
proof (intro allI impI)
  fix c room'
  assume r: "rooms (step e st) c = Some room'"
  have mono: "messageIdCounter st \<le> messageIdCounter (step e st)"
    by (rule step_counter_mono)
  have kept: "sorted_wrt (<) (map id_msg (messages room')) \<and>
      (\<forall>m \<in> set (messages room'). id_msg m < messageIdCounter (step e st))"
    if "sorted_wrt (<) (map id_msg (messages room)) \<and>
      (\<forall>m \<in> set (messages room). id_msg m < messageIdCounter st)"
      "messages room' = messages room" for room
    using that mono by auto
  from step_rooms [OF r]
  show "sorted_wrt (<) (map id_msg (messages room')) \<and>
      (\<forall>m \<in> set (messages room'). id_msg m < messageIdCounter (step e st))"
  proof (elim disjE exE conjE)
    assume "rooms st c = Some room'"
    with d kept [of room'] show ?thesis unfolding idsOrdered_def by blast
  next
    fix room m
    assume a: "rooms st c = Some room" "messages room' = messages room @ [m]"
      "id_msg m = messageIdCounter st"
      "messageIdCounter (step e st) = messageIdCounter st + 1"
    with d have "sorted_wrt (<) (map id_msg (messages room)) \<and>
      (\<forall>m \<in> set (messages room). id_msg m < messageIdCounter st)"
      unfolding idsOrdered_def by blast
    with a show ?thesis by (auto simp: sorted_wrt_append)
  next
    fix room sid
    assume "rooms st c = Some room" "messages room' = messages room"
    with d kept [of room] show ?thesis unfolding idsOrdered_def by blast
  next
    fix caller room u
    assume "JoinAwaitsSessionId caller c room \<in> set (pending st)"
      "messages room' = messages room"
    with h kept [of room] show ?thesis unfolding heldIdsOrdered_def by blast
  next
    fix u
    assume "messages room' = []"
    then show ?thesis by simp
  qed
qed

lemma step_heldIdsOrdered:
  assumes d: "idsOrdered st" and h: "heldIdsOrdered st"
  shows "heldIdsOrdered (step e st)"
  unfolding heldIdsOrdered_def
proof (intro allI impI)
  fix caller c room
  assume "JoinAwaitsSessionId caller c room \<in> set (pending (step e st))"
  from step_held [OF this] d h
  have "sorted_wrt (<) (map id_msg (messages room)) \<and>
      (\<forall>m \<in> set (messages room). id_msg m < messageIdCounter st)"
    unfolding idsOrdered_def heldIdsOrdered_def by blast
  with step_counter_mono [of st e]
  show "sorted_wrt (<) (map id_msg (messages room)) \<and>
      (\<forall>m \<in> set (messages room). id_msg m < messageIdCounter (step e st))"
    by auto
qed

lemma run_idsOrdered:
  "idsOrdered st \<Longrightarrow> heldIdsOrdered st \<Longrightarrow> idsOrdered (run cs st) \<and> heldIdsOrdered (run cs st)"
proof (induction cs arbitrary: st)
  case Nil
  then show ?case by simp
next
  case (Cons c cs)
  have "idsOrdered (step c st)" using Cons.prems by (rule step_idsOrdered)
  moreover have "heldIdsOrdered (step c st)" using Cons.prems by (rule step_heldIdsOrdered)
  ultimately show ?case using Cons.IH [of "step c st"] by simp
qed

lemma sentIds_increasing:
  "sorted_wrt (<) (sentIds cs st) \<and> (\<forall>i \<in> set (sentIds cs st). messageIdCounter st \<le> i)"
proof (induction cs arbitrary: st)
  case Nil
  show ?case by simp
next
  case (Cons c cs)
  have mono: "messageIdCounter st \<le> messageIdCounter (step c st)"
    by (rule step_counter_mono)
  from Cons.IH [of "step c st"] have
    s: "sorted_wrt (<) (sentIds cs (step c st))" and
    b: "\<forall>i \<in> set (sentIds cs (step c st)). messageIdCounter (step c st) \<le> i"
    by auto
  have one: "sorted_wrt (<) (sentId c st)"
    by (cases c) (auto split: Result.splits)
  have "\<forall>i \<in> set (sentId c st). \<forall>j \<in> set (sentIds cs (step c st)). i < j"
    using sentId_bounds [of _ c st] b by fastforce
  moreover have "\<forall>i \<in> set (sentId c st). messageIdCounter st \<le> i"
    using sentId_bounds [of _ c st] by auto
  moreover have "\<forall>i \<in> set (sentIds cs (step c st)). messageIdCounter st \<le> i"
    using b mono by auto
  ultimately show ?case using s one by (auto simp: sorted_wrt_append)
qed

subsection \<open>The sample history\<close>

lemmas scenario_simps = scenario_def init_def createRoom_def joinRoom_def sendMessage_def
  leaveRoom_def endRoom_def cleanupExpiredRooms_def createOrGetUser_def isRoomValid_def
  uniqueCodeLoop.simps natToText.simps SESSION_TIMEOUT_def Let_def getRoom_def getMessages_def
  cleanup_def createRoomStart_def createRoomSession_def createRoomLoop_def joinRoomStart_def
  joinRoomResume_def suspend_def

lemma scenario_rooms: "rooms (run scenario init) ''AB12CD'' = Some scenarioRoom"
  by (simp add: scenario_simps scenarioRoom_def)

lemma scenario_sentIds: "sentIds scenario init = [0, 1]"
  by (simp add: scenario_simps)

subsection \<open>The retry loop\<close>

text \<open>
  The loop ends with ten retries made exactly when the first code and the first nine
  retries all collide; the code of the tenth retry is never looked up.
\<close>

lemma uniqueCodeLoop_attempts:
  "roomCode = gen a \<Longrightarrow> a \<le> 10 \<Longrightarrow>
     (10 \<le> snd (uniqueCodeLoop rs gen roomCode a)) =
     (\<forall>k. a \<le> k \<and> k < 10 \<longrightarrow> rs (gen k) \<noteq> None)"
proof (induction rs gen roomCode a rule: uniqueCodeLoop.induct)
  case (1 rs gen roomCode a)
  show ?case
  proof (cases "rs roomCode \<noteq> None \<and> a < 10")
    case True
    then have "(10 \<le> snd (uniqueCodeLoop rs gen roomCode a)) =
               (10 \<le> snd (uniqueCodeLoop rs gen (gen (a + 1)) (a + 1)))"
      by (subst uniqueCodeLoop.simps) simp
    also have "\<dots> = (\<forall>k. a + 1 \<le> k \<and> k < 10 \<longrightarrow> rs (gen k) \<noteq> None)"
      using "1.IH" [OF True refl] True by simp
    also have "\<dots> = (\<forall>k. a \<le> k \<and> k < 10 \<longrightarrow> rs (gen k) \<noteq> None)"
    proof -
      have "rs (gen a) \<noteq> None" using True "1.prems" by simp
      then show ?thesis
        by (metis Suc_eq_plus1 Suc_leI le_eq_less_or_eq Suc_leD)
    qed
    finally show ?thesis .
  next
    case False
    then have eq: "uniqueCodeLoop rs gen roomCode a = (roomCode, a)"
      by (subst uniqueCodeLoop.simps) auto
    show ?thesis
    proof (cases "a < 10")
      case True
      with False "1.prems" have "rs (gen a) = None" by simp
      with True eq show ?thesis by auto
    next
      case False
      with "1.prems" eq show ?thesis by auto
    qed
  qed
qed

lemma createRoom_error_iff:
  "(fst (createRoom caller sid gen t0 t1 t2 st) = Err ''Failed to generate unique room code'') =
   (\<forall>k < 10. rooms (cleanupExpiredRooms t0 st) (gen k) \<noteq> None)"
proof -
  let ?st1 = "cleanupExpiredRooms t0 st"
  obtain user st2 where u: "createOrGetUser sid caller t1 ?st1 = (user, st2)"
    by (cases "createOrGetUser sid caller t1 ?st1")
  then have r2: "rooms st2 = rooms ?st1"
    using rooms_createOrGetUser [of sid caller t1 ?st1] by simp
  obtain roomCode attempts where l: "uniqueCodeLoop (rooms ?st1) gen (gen 0) 0 = (roomCode, attempts)"
    by (cases "uniqueCodeLoop (rooms ?st1) gen (gen 0) 0")
  have "(10 \<le> attempts) = (\<forall>k < 10. rooms ?st1 (gen k) \<noteq> None)"
    using uniqueCodeLoop_attempts [of "gen 0" gen 0 "rooms ?st1"] l by simp
  moreover have "(fst (createRoom caller sid gen t0 t1 t2 st) =
      Err ''Failed to generate unique room code'') = (10 \<le> attempts)"
    using u r2 l by (simp add: createRoom_def Let_def)
  ultimately show ?thesis by simp
qed

section \<open>The claims\<close>

text \<open>
  Claim C1: \<open>createRoom\<close> retries up to 10 times and fails only if the code still collides
  after the 10 attempts; whenever a retry within the budget yields a free code the call
  succeeds. At the input below the first code and nine retries collide with the stored
  room \<open>AB12CD\<close> and the tenth retry yields the free code \<open>ZZ99ZZ\<close>: the loop stops with
  \<open>attempts = 10\<close>, and the test \<open>attempts >= 10\<close> returns the error although the last
  code is free. No room is stored under that code.
\<close>

theorem createRoom_discards_tenth_retry:
  "getRoom (tenthRetryFresh 0) (run scenario init) = Some scenarioRoom \<and>
   isRoomValid (tenthRetryFresh 0) 4 (run scenario init) \<and>
   getRoom (tenthRetryFresh 10) (run scenario init) = None \<and>
   createRoom ''pc'' ''SESSIONCCCCC'' tenthRetryFresh 4 4 4 (run scenario init) =
     (Err ''Failed to generate unique room code'',
      snd (createOrGetUser ''SESSIONCCCCC'' ''pc'' 4 (cleanupExpiredRooms 4 (run scenario init)))) \<and>
   getRoom ''ZZ99ZZ''
     (snd (createRoom ''pc'' ''SESSIONCCCCC'' tenthRetryFresh 4 4 4 (run scenario init))) = None"
proof -
  let ?st = "run scenario init"
  have none: "rooms ?st ''ZZ99ZZ'' = None" by (simp add: scenario_simps)
  have "\<forall>k<10. rooms (cleanupExpiredRooms 4 ?st) (tenthRetryFresh k) \<noteq> None"
    by (simp add: rooms_cleanup scenario_rooms tenthRetryFresh_def scenarioRoom_def
        SESSION_TIMEOUT_def)
  then have e: "fst (createRoom ''pc'' ''SESSIONCCCCC'' tenthRetryFresh 4 4 4 ?st) =
      Err ''Failed to generate unique room code''"
    by (simp add: createRoom_error_iff)
  then have s: "snd (createRoom ''pc'' ''SESSIONCCCCC'' tenthRetryFresh 4 4 4 ?st) =
      snd (createOrGetUser ''SESSIONCCCCC'' ''pc'' 4 (cleanupExpiredRooms 4 ?st))"
    by (auto simp: createRoom_def Let_def split: prod.splits if_splits)
  have "rooms (snd (createOrGetUser ''SESSIONCCCCC'' ''pc'' 4 (cleanupExpiredRooms 4 ?st))) ''ZZ99ZZ'' = None"
    using none by (simp add: rooms_cleanup)
  with e s none scenario_rooms show ?thesis
    by (simp add: getRoom_def isRoomValid_def tenthRetryFresh_def prod_eq_iff)
       (simp add: scenarioRoom_def SESSION_TIMEOUT_def)
qed

text \<open>
  Claim C2, as amended. \<open>getMessages\<close> has no expiry check: for a stored room whose
  \<open>lastActivity\<close> is more than \<open>SESSION_TIMEOUT\<close> before the current time it returns the
  stored messages. It returns the empty sequence for that code once a sweep, which runs at
  the start of \<open>createRoom\<close>, \<open>joinRoom\<close> and \<open>sendMessage\<close> and in \<open>cleanup\<close>, has
  deleted the room; \<open>getRoom\<close> is then absent too.
\<close>

theorem getMessages_stale_room:
  assumes "rooms st roomCode = Some room"
    and "now - lastActivity room > SESSION_TIMEOUT"
  shows "getMessages roomCode st = messages room \<and>
         getMessages roomCode (cleanup now st) = [] \<and>
         getRoom roomCode (cleanup now st) = None"
  using assms by (simp add: getMessages_def getRoom_def cleanup_def rooms_cleanup)

text \<open>The amended claim on the sample history, 21 minutes after its last message.\<close>

theorem getMessages_stale_room_witness:
  "getMessages ''AB12CD'' (run scenario init) = messages scenarioRoom \<and>
   getMessages ''AB12CD'' (cleanup 1260000000003 (run scenario init)) = [] \<and>
   getRoom ''AB12CD'' (cleanup 1260000000003 (run scenario init)) = None"
proof -
  have "1260000000003 - lastActivity scenarioRoom > SESSION_TIMEOUT"
    by (simp add: scenarioRoom_def SESSION_TIMEOUT_def)
  from getMessages_stale_room [OF scenario_rooms this] show ?thesis .
qed

text \<open>
  Claim C2 as stated fails: 21 minutes after the last activity the room of the sample
  history is still stored, and \<open>getMessages\<close> returns its two messages.
\<close>

theorem getMessages_stale_counterexample:
  "getRoom ''AB12CD'' (run scenario init) = Some scenarioRoom \<and>
   1260000000003 - lastActivity scenarioRoom > SESSION_TIMEOUT \<and>
   getMessages ''AB12CD'' (run scenario init) = messages scenarioRoom \<and>
   messages scenarioRoom \<noteq> []"
  by (simp add: getRoom_def getMessages_def scenario_rooms)
     (simp add: scenarioRoom_def SESSION_TIMEOUT_def)

text \<open>
  Claim C3: in any history of the actor, with calls suspended at their awaits and resumed
  in any order, the message ids handed back by the successful \<open>sendMessage\<close> calls,
  in the order of the calls and whatever the rooms, are strictly increasing, hence never
  reused; and in every room of the resulting store the ids increase strictly with the
  position.
\<close>

theorem message_ids_increasing:
  "sorted_wrt (<) (sentIds cs init) \<and>
   (\<forall>roomCode room. rooms (run cs init) roomCode = Some room \<longrightarrow>
      sorted_wrt (<) (map id_msg (messages room)))"
proof -
  have "idsOrdered init" "heldIdsOrdered init"
    by (simp_all add: idsOrdered_def heldIdsOrdered_def init_def)
  then have "idsOrdered (run cs init)" using run_idsOrdered by blast
  then show ?thesis using sentIds_increasing [of cs init] unfolding idsOrdered_def by blast
qed

text \<open>
  On the sample history the ids handed back are 0 and 1, in this order. In \<open>overtaken\<close>
  they are 0 and 1 as well; the room keeps only the second message, since the resumed
  \<open>joinRoom\<close> stores the copy it read before the first was sent.
\<close>

theorem message_ids_increasing_witness:
  "sentIds scenario init = [0, 1] \<and> sorted_wrt (<) (sentIds scenario init) \<and>
   rooms (run scenario init) ''AB12CD'' = Some scenarioRoom \<and>
   map id_msg (messages scenarioRoom) = [0, 1] \<and>
   sorted_wrt (<) (map id_msg (messages scenarioRoom)) \<and>
   sentIds overtaken init = [0, 1] \<and>
   map_option (map id_msg \<circ> messages) (rooms (run overtaken init) ''AB12CD'') = Some [1]"
proof -
  have o: "sentIds overtaken init = [0, 1]"
    "map_option (map id_msg \<circ> messages) (rooms (run overtaken init) ''AB12CD'') = Some [1]"
    by (simp_all add: overtaken_def scenario_simps)
  from message_ids_increasing [of scenario] message_ids_increasing [of overtaken]
    scenario_rooms scenario_sentIds o
  show ?thesis by (simp add: scenarioRoom_def)
qed



text \<open>
  Claim C5: \<open>endRoom\<close> deletes the room if and only if the session id is the room's
  creator and returns whether it did; it takes no time reading, so nothing depends on the
  room being stale. For a non-creator it returns false and the whole state is unchanged.
\<close>

theorem endRoom_creator_only:
  "(rooms st roomCode = None \<longrightarrow> endRoom caller roomCode sid st = (False, st)) \<and>
   (\<forall>room. rooms st roomCode = Some room \<longrightarrow>
      (fst (endRoom caller roomCode sid st) \<longleftrightarrow> creator room = sid) \<and>
      (getRoom roomCode (snd (endRoom caller roomCode sid st)) = None \<longleftrightarrow> creator room = sid) \<and>
      (creator room \<noteq> sid \<longrightarrow> snd (endRoom caller roomCode sid st) = st))"
  by (simp add: endRoom_def getRoom_def)

text \<open>On the sample history, whose room is stale 21 minutes later.\<close>

theorem endRoom_creator_only_witness:
  "\<not> fst (endRoom ''pb'' ''AB12CD'' ''SESSIONBBBBB'' (run scenario init)) \<and>
   snd (endRoom ''pb'' ''AB12CD'' ''SESSIONBBBBB'' (run scenario init)) = run scenario init \<and>
   fst (endRoom ''pb'' ''AB12CD'' ''SESSIONAAAAA'' (run scenario init)) \<and>
   getRoom ''AB12CD'' (snd (endRoom ''pb'' ''AB12CD'' ''SESSIONAAAAA'' (run scenario init))) = None \<and>
   \<not> isRoomValid ''AB12CD'' 1260000000003 (run scenario init)"
  using endRoom_creator_only [of "run scenario init" "''AB12CD''" "''pb''" "''SESSIONBBBBB''"]
        endRoom_creator_only [of "run scenario init" "''AB12CD''" "''pb''" "''SESSIONAAAAA''"]
        scenario_rooms
  by (simp add: scenarioRoom_def isRoomValid_def SESSION_TIMEOUT_def)

text \<open>
  Claim C6: \<open>leaveRoom\<close> returns false if and only if no room is stored under the code.
  For a stored room it removes the session id from the participants; if nobody is left the
  room is deleted and \<open>getRoom\<close> is absent, otherwise the room is stored with the remaining
  participants.
\<close>

theorem leaveRoom_result:
  "(\<not> fst (leaveRoom caller roomCode sid now st) \<longleftrightarrow> rooms st roomCode = None) \<and>
   (\<forall>room. rooms st roomCode = Some room \<longrightarrow>
      (filter (\<lambda>u. sessionId u \<noteq> sid) (participants room) = [] \<longrightarrow>
         getRoom roomCode (snd (leaveRoom caller roomCode sid now st)) = None) \<and>
      (filter (\<lambda>u. sessionId u \<noteq> sid) (participants room) \<noteq> [] \<longrightarrow>
         (\<exists>room'. getRoom roomCode (snd (leaveRoom caller roomCode sid now st)) = Some room' \<and>
            participants room' = filter (\<lambda>u. sessionId u \<noteq> sid) (participants room) \<and>
            sid \<notin> sessionId ` set (participants room'))))"
  by (auto simp: leaveRoom_def getRoom_def Let_def split: option.splits)

text \<open>Both sessions of the sample history leave in turn; an unknown code gives false.\<close>

theorem leaveRoom_result_witness:
  "fst (leaveRoom ''pa'' ''AB12CD'' ''SESSIONAAAAA'' 4 (run scenario init)) \<and>
   map_option (map sessionId \<circ> participants)
     (getRoom ''AB12CD'' (snd (leaveRoom ''pa'' ''AB12CD'' ''SESSIONAAAAA'' 4 (run scenario init)))) =
     Some [''SESSIONBBBBB''] \<and>
   fst (leaveRoom ''pb'' ''AB12CD'' ''SESSIONBBBBB'' 5
     (snd (leaveRoom ''pa'' ''AB12CD'' ''SESSIONAAAAA'' 4 (run scenario init)))) \<and>
   getRoom ''AB12CD'' (snd (leaveRoom ''pb'' ''AB12CD'' ''SESSIONBBBBB'' 5
     (snd (leaveRoom ''pa'' ''AB12CD'' ''SESSIONAAAAA'' 4 (run scenario init))))) = None \<and>
   \<not> fst (leaveRoom ''pa'' ''ZZ99ZZ'' ''SESSIONAAAAA'' 4 (run scenario init))"
proof -
  let ?st = "run scenario init"
  let ?st1 = "snd (leaveRoom ''pa'' ''AB12CD'' ''SESSIONAAAAA'' 4 ?st)"
  have none: "rooms ?st ''ZZ99ZZ'' = None" by (simp add: scenario_simps)
  have r1: "rooms ?st1 ''AB12CD'' =
    Some (scenarioRoom\<lparr>participants := [\<lparr>sessionId = ''SESSIONBBBBB'', principal = ''pb'',
      displayName = ''User 2'', joinedAt = 2\<rparr>], lastActivity := 4\<rparr>)"
    using scenario_rooms by (simp add: leaveRoom_def Let_def scenarioRoom_def)
  from leaveRoom_result [of "''pa''" "''AB12CD''" "''SESSIONAAAAA''" 4 ?st]
       leaveRoom_result [of "''pb''" "''AB12CD''" "''SESSIONBBBBB''" 5 ?st1]
       leaveRoom_result [of "''pa''" "''ZZ99ZZ''" "''SESSIONAAAAA''" 4 ?st]
       scenario_rooms r1 none
  show ?thesis by (auto simp: scenarioRoom_def)
qed

text \<open>
  Claim C8: in every state the actor reaches from the empty store, with calls suspended at
  their awaits and resumed in any order, and in the state after any further step, the
  participants of every stored room have pairwise distinct session ids.
\<close>

theorem participants_distinct_reachable:
  "(\<forall>room. rooms (run cs init) roomCode = Some room \<longrightarrow>
      distinct (map sessionId (participants room))) \<and>
   (\<forall>room. rooms (step c (run cs init)) roomCode = Some room \<longrightarrow>
      distinct (map sessionId (participants room)))"
proof -
  have i: "sessionsKeyed (run cs init)" "participantsDistinct (run cs init)"
    "heldDistinct (run cs init)"
    using run_distinct init_distinct by blast+
  then have "participantsDistinct (step c (run cs init))"
    by (rule step_participantsDistinct)
  with i(2) show ?thesis unfolding participantsDistinct_def by blast
qed

text \<open>
  The sample history; and the room that its creator ends while a \<open>joinRoom\<close> is
  suspended, which the resumed \<open>joinRoom\<close> stores again with both participants.
\<close>

theorem participants_distinct_witness:
  "rooms (run scenario init) ''AB12CD'' = Some scenarioRoom \<and>
   map sessionId (participants scenarioRoom) = [''SESSIONAAAAA'', ''SESSIONBBBBB''] \<and>
   distinct (map sessionId (participants scenarioRoom)) \<and>
   rooms (run endedMeanwhile init) ''AB12CD'' = None \<and>
   map_option (map sessionId \<circ> participants)
     (rooms (step revival (run endedMeanwhile init)) ''AB12CD'') =
     Some [''SESSIONAAAAA'', ''SESSIONBBBBB'']"
proof -
  have e: "rooms (run endedMeanwhile init) ''AB12CD'' = None"
    "map_option (map sessionId \<circ> participants)
       (rooms (step revival (run endedMeanwhile init)) ''AB12CD'') =
     Some [''SESSIONAAAAA'', ''SESSIONBBBBB'']"
    by (simp_all add: endedMeanwhile_def revival_def scenario_simps)
  from participants_distinct_reachable [of scenario "''AB12CD''" revival]
    participants_distinct_reachable [of endedMeanwhile "''AB12CD''" revival]
    scenario_rooms e
  show ?thesis by (simp add: scenarioRoom_def)
qed

text \<open>
  Claim C9: \<open>sendMessage\<close>, \<open>endRoom\<close> and \<open>leaveRoom\<close> give the same result and the same
  state for any two callers. So a caller who knows the session id of a participant of a
  live room sends a message under that participant's id and display name, whatever
  principal the participant was registered with.
\<close>

theorem session_operations_ignore_caller:
  "sendMessage caller roomCode sid body now st = sendMessage caller' roomCode sid body now st \<and>
   endRoom caller roomCode sid st = endRoom caller' roomCode sid st \<and>
   leaveRoom caller roomCode sid now st = leaveRoom caller' roomCode sid now st \<and>
   (\<forall>room user. rooms st roomCode = Some room \<and>
      now - lastActivity room \<le> SESSION_TIMEOUT \<and>
      find (\<lambda>u. sessionId u = sid) (participants room) = Some user \<longrightarrow>
      (\<exists>message. fst (sendMessage caller roomCode sid body now st) = Ok message \<and>
         sender message = sid \<and> senderName message = displayName user))"
proof (intro conjI allI impI)
  fix room user
  assume h: "rooms st roomCode = Some room \<and> now - lastActivity room \<le> SESSION_TIMEOUT \<and>
      find (\<lambda>u. sessionId u = sid) (participants room) = Some user"
  then have "rooms (cleanupExpiredRooms now st) roomCode = Some room"
    by (simp add: rooms_cleanup_Some)
  with h show "\<exists>message. fst (sendMessage caller roomCode sid body now st) = Ok message \<and>
         sender message = sid \<and> senderName message = displayName user"
    by (simp add: sendMessage_live Let_def)
qed (simp_all add: sendMessage_def endRoom_def leaveRoom_def)

text \<open>A caller other than the creator of the sample room sends as the creator.\<close>

theorem session_operations_ignore_caller_witness:
  "principal (hd (participants scenarioRoom)) = ''pa'' \<and>
   sendMessage ''mallory'' ''AB12CD'' ''SESSIONAAAAA'' ''spoofed'' 4 (run scenario init) =
     sendMessage ''pa'' ''AB12CD'' ''SESSIONAAAAA'' ''spoofed'' 4 (run scenario init) \<and>
   fst (sendMessage ''mallory'' ''AB12CD'' ''SESSIONAAAAA'' ''spoofed'' 4 (run scenario init)) =
     Ok \<lparr>id_msg = 2, sender = ''SESSIONAAAAA'', senderName = ''User 1'', content = ''spoofed'',
         timestamp = 4\<rparr>"
proof -
  let ?st = "run scenario init"
  have h: "rooms ?st ''AB12CD'' = Some scenarioRoom \<and>
      4 - lastActivity scenarioRoom \<le> SESSION_TIMEOUT \<and>
      find (\<lambda>u. sessionId u = ''SESSIONAAAAA'') (participants scenarioRoom) =
        Some (hd (participants scenarioRoom))"
    using scenario_rooms by (simp add: scenarioRoom_def SESSION_TIMEOUT_def)
  have c: "messageIdCounter ?st = 2" by (simp add: scenario_simps)
  from session_operations_ignore_caller
    [of "''mallory''" "''AB12CD''" "''SESSIONAAAAA''" "''spoofed''" 4 ?st "''pa''"] h
  obtain message where m: "fst (sendMessage ''mallory'' ''AB12CD'' ''SESSIONAAAAA'' ''spoofed'' 4 ?st) = Ok message"
    and eq: "sendMessage ''mallory'' ''AB12CD'' ''SESSIONAAAAA'' ''spoofed'' 4 ?st =
     sendMessage ''pa'' ''AB12CD'' ''SESSIONAAAAA'' ''spoofed'' 4 ?st"
    by blast
  have "rooms (cleanupExpiredRooms 4 ?st) ''AB12CD'' = Some scenarioRoom"
    using h by (simp add: rooms_cleanup_Some)
  then have "fst (sendMessage ''mallory'' ''AB12CD'' ''SESSIONAAAAA'' ''spoofed'' 4 ?st) =
     Ok \<lparr>id_msg = 2, sender = ''SESSIONAAAAA'', senderName = ''User 1'', content = ''spoofed'',
         timestamp = 4\<rparr>"
    using c by (simp add: sendMessage_live Let_def scenarioRoom_def)
  with eq show ?thesis by (simp add: scenarioRoom_def)
qed

text \<open>
  Claim C10: \<open>leaveRoom\<close> with a session id that is not a participant of a stored room
  with at least one participant returns true and changes nothing of the room but
  \<open>lastActivity\<close>, which becomes the current time; the room is then valid for another
  \<open>SESSION_TIMEOUT\<close>.
\<close>

theorem leaveRoom_non_member_bumps_activity:
  assumes "rooms st roomCode = Some room"
    and "sid \<notin> sessionId ` set (participants room)"
    and "participants room \<noteq> []"
  shows "leaveRoom caller roomCode sid now st =
           (True, st\<lparr>rooms := (rooms st)(roomCode \<mapsto> room\<lparr>lastActivity := now\<rparr>)\<rparr>) \<and>
         (\<forall>t. t - now \<le> SESSION_TIMEOUT \<longrightarrow>
            isRoomValid roomCode t (snd (leaveRoom caller roomCode sid now st)))"
proof -
  from assms(2) have "filter (\<lambda>u. sessionId u \<noteq> sid) (participants room) = participants room"
    by (auto simp: filter_id_conv)
  with assms(1,3) show ?thesis
    by (simp add: leaveRoom_def Let_def isRoomValid_def)
qed

text \<open>A stranger's leave revives the stale room of the sample history.\<close>

theorem leaveRoom_non_member_witness:
  "leaveRoom ''pz'' ''AB12CD'' ''SESSIONZZZZZ'' 1260000000003 (run scenario init) =
     (True, (run scenario init)\<lparr>rooms := (rooms (run scenario init))
        (''AB12CD'' \<mapsto> scenarioRoom\<lparr>lastActivity := 1260000000003\<rparr>)\<rparr>) \<and>
   \<not> isRoomValid ''AB12CD'' 1260000000003 (run scenario init) \<and>
   isRoomValid ''AB12CD'' 1260000000003
     (snd (leaveRoom ''pz'' ''AB12CD'' ''SESSIONZZZZZ'' 1260000000003 (run scenario init)))"
proof -
  have nm: "''SESSIONZZZZZ'' \<notin> sessionId ` set (participants scenarioRoom)"
    by (simp add: scenarioRoom_def)
  have ne: "participants scenarioRoom \<noteq> []" by (simp add: scenarioRoom_def)
  have stale: "\<not> isRoomValid ''AB12CD'' 1260000000003 (run scenario init)"
    using scenario_rooms by (simp add: isRoomValid_def scenarioRoom_def SESSION_TIMEOUT_def)
  from leaveRoom_non_member_bumps_activity [OF scenario_rooms nm ne, of "''pz''" 1260000000003]
  have eq: "leaveRoom ''pz'' ''AB12CD'' ''SESSIONZZZZZ'' 1260000000003 (run scenario init) =
     (True, (run scenario init)\<lparr>rooms := (rooms (run scenario init))
        (''AB12CD'' \<mapsto> scenarioRoom\<lparr>lastActivity := 1260000000003\<rparr>)\<rparr>)"
    and later: "\<forall>t. t - 1260000000003 \<le> SESSION_TIMEOUT \<longrightarrow> isRoomValid ''AB12CD'' t
      (snd (leaveRoom ''pz'' ''AB12CD'' ''SESSIONZZZZZ'' 1260000000003 (run scenario init)))"
    by blast+
  from later have "isRoomValid ''AB12CD'' 1260000000003
      (snd (leaveRoom ''pz'' ''AB12CD'' ''SESSIONZZZZZ'' 1260000000003 (run scenario init)))"
    by (simp add: SESSION_TIMEOUT_def)
  with eq stale show ?thesis by blast
qed

end
